theory Spec2Isabelle
  imports Main
begin

section \<open>Tokens and syntax trees\<close>

text \<open>
  The token kinds are the group names of \<^verbatim>\<open>Lexer.token_spec\<close> that
  \<^verbatim>\<open>tokenize\<close> appends (\<^verbatim>\<open>SKIP\<close> and \<^verbatim>\<open>MISMATCH\<close> never reach the
  token list).  A token is the pair of fields \<^verbatim>\<open>type\<close> and \<^verbatim>\<open>value\<close> of
  class \<^verbatim>\<open>Token\<close>.
\<close>

datatype kind =
  INCLUDE | KEYWORD | ID | NUM | STRING | OP | LPAREN | RPAREN
  | LBRACE | RBRACE | LBRACKET | RBRACKET | DELIM

record token =
  tok_type :: kind
  tok_value :: string

definition Token :: "kind \<Rightarrow> string \<Rightarrow> token" where
  "Token ty val = \<lparr>tok_type = ty, tok_value = val\<rparr>"

text \<open>
  Expression nodes are the tuples \<^verbatim>\<open>('leaf', v)\<close> and
  \<^verbatim>\<open>('binop', op, left, right)\<close>.  The operands of a \<^verbatim>\<open>binop\<close> are whatever
  \<^verbatim>\<open>mul_div\<close> and \<^verbatim>\<open>factor\<close> returned, which may be Python's \<^verbatim>\<open>None\<close>:
  they are optional here.
\<close>

datatype expr =
  Leaf string
  | BinOp string "expr option" "expr option"

text \<open>
  Statement nodes are the tagged tuples the parser appends to \<^verbatim>\<open>self.ast\<close>.
  The expression of an \<^verbatim>\<open>assign_expr\<close> passed the test \<^verbatim>\<open>if not expr\<close>, so
  it is a tuple, never \<^verbatim>\<open>None\<close>.
\<close>

datatype stmt =
  Include string
  | Declare string string
  | DeclareArray string string string
  | AssignExpr string string expr
  | Printf string

section \<open>Parser\<close>

record parser =
  tokens :: "token list"
  pos :: nat
  ast :: "stmt list"
  errors :: "string list"

definition Parser :: "token list \<Rightarrow> parser" where
  "Parser ts = \<lparr>tokens = ts, pos = 0, ast = [], errors = []\<rparr>"

definition current :: "parser \<Rightarrow> token option" where
  "current p = (if pos p < length (tokens p) then Some (tokens p ! pos p) else None)"

text \<open>\<^verbatim>\<open>match(type_, value=None)\<close>: the token and the advanced cursor, or \<^verbatim>\<open>None\<close>
  and the parser unchanged.\<close>

definition match :: "kind \<Rightarrow> string option \<Rightarrow> parser \<Rightarrow> token option \<times> parser" where
  "match ty v p =
     (case current p of
        Some t \<Rightarrow>
          if tok_type t = ty \<and> (v = None \<or> v = Some (tok_value t))
          then (Some t, p\<lparr>pos := pos p + 1\<rparr>)
          else (None, p)
      | None \<Rightarrow> (None, p))"

text \<open>\<^verbatim>\<open>self.match('OP', a) or self.match('OP', b)\<close>: the second match is tried only
  when the first returned \<^verbatim>\<open>None\<close>.\<close>

definition match_op2 :: "string \<Rightarrow> string \<Rightarrow> parser \<Rightarrow> token option \<times> parser" where
  "match_op2 a b p =
     (case match OP (Some a) p of
        (Some t, p') \<Rightarrow> (Some t, p')
      | (None, p') \<Rightarrow> match OP (Some b) p')"

text \<open>
  The expression grammar.  The two \<^verbatim>\<open>while True\<close> loops of \<^verbatim>\<open>add_sub\<close> and
  \<^verbatim>\<open>mul_div\<close> are the functions \<open>add_sub_loop\<close> and \<open>mul_div_loop\<close>, which
  carry the loop variable \<^verbatim>\<open>node\<close>.
\<close>

function factor :: "parser \<Rightarrow> expr option \<times> parser"
  and mul_div_loop :: "expr option \<Rightarrow> parser \<Rightarrow> expr option \<times> parser"
  and mul_div :: "parser \<Rightarrow> expr option \<times> parser"
  and add_sub_loop :: "expr option \<Rightarrow> parser \<Rightarrow> expr option \<times> parser"
  and add_sub :: "parser \<Rightarrow> expr option \<times> parser"
  and expression :: "parser \<Rightarrow> expr option \<times> parser"
where
  "factor p =
     (case current p of
        None \<Rightarrow> (None, p)
      | Some tok \<Rightarrow>
          if tok_type tok = NUM \<or> tok_type tok = ID
          then (Some (Leaf (tok_value tok)), p\<lparr>pos := pos p + 1\<rparr>)
          else if tok_type tok = LPAREN
          then (case expression (snd (match LPAREN None p)) of
                  (e, p') \<Rightarrow> (e, snd (match RPAREN None p')))
          else (None, p))"
| "mul_div_loop node p =
     (case match_op2 ''*'' ''/'' p of
        (Some op_tok, p') \<Rightarrow>
          (case factor p' of
             (right, p'') \<Rightarrow> mul_div_loop (Some (BinOp (tok_value op_tok) node right)) p'')
      | (None, p') \<Rightarrow> (node, p'))"
| "mul_div p = (case factor p of (node, p') \<Rightarrow> mul_div_loop node p')"
| "add_sub_loop node p =
     (case match_op2 ''+'' ''-'' p of
        (Some op_tok, p') \<Rightarrow>
          (case mul_div p' of
             (right, p'') \<Rightarrow> add_sub_loop (Some (BinOp (tok_value op_tok) node right)) p'')
      | (None, p') \<Rightarrow> (node, p'))"
| "add_sub p = (case mul_div p of (node, p') \<Rightarrow> add_sub_loop node p')"
| "expression p = add_sub p"
  by pat_completeness auto

text \<open>
  Termination of the expression grammar: every recursive call is made on a parser with
  the same token list whose cursor is no further left, and every call through
  \<^verbatim>\<open>factor\<close> or a loop body is made after one token was consumed.
\<close>

definition remaining :: "parser \<Rightarrow> nat" where
  "remaining p = length (tokens p) - pos p"

definition advances :: "parser \<Rightarrow> parser \<Rightarrow> bool" where
  "advances p p' \<longleftrightarrow> tokens p' = tokens p \<and> pos p \<le> pos p'"

lemma advances_refl: "advances p p"
  by (simp add: advances_def)

lemma advances_trans: "advances p q \<Longrightarrow> advances q r \<Longrightarrow> advances p r"
  by (auto simp: advances_def)

lemma match_advances: "advances p (snd (match ty v p))"
  by (auto simp: match_def advances_def split: option.splits)

lemma match_Some_remaining:
  "match ty v p = (Some t, p') \<Longrightarrow> tokens p' = tokens p \<and> pos p' = Suc (pos p) \<and> pos p < length (tokens p)"
  by (auto simp: match_def current_def split: option.splits if_splits)

lemma match_None_same: "match ty v p = (None, p') \<Longrightarrow> p' = p"
  by (auto simp: match_def split: option.splits if_splits)

lemma match_op2_Some:
  "match_op2 a b p = (Some t, p') \<Longrightarrow> tokens p' = tokens p \<and> pos p' = Suc (pos p) \<and> pos p < length (tokens p)"
  by (auto simp: match_op2_def split: prod.splits option.splits dest: match_Some_remaining match_None_same)

lemma match_op2_None: "match_op2 a b p = (None, p') \<Longrightarrow> p' = p"
  by (auto simp: match_op2_def split: prod.splits option.splits dest: match_None_same)

lemma expr_partial:
  "factor_mul_div_loop_mul_div_add_sub_loop_add_sub_expression_dom (Inl (Inl p)) \<Longrightarrow> advances p (snd (factor p))"
  "factor_mul_div_loop_mul_div_add_sub_loop_add_sub_expression_dom (Inl (Inr (Inl (node, p)))) \<Longrightarrow> advances p (snd (mul_div_loop node p))"
  "factor_mul_div_loop_mul_div_add_sub_loop_add_sub_expression_dom (Inl (Inr (Inr p))) \<Longrightarrow> advances p (snd (mul_div p))"
  "factor_mul_div_loop_mul_div_add_sub_loop_add_sub_expression_dom (Inr (Inl (node', p))) \<Longrightarrow> advances p (snd (add_sub_loop node' p))"
  "factor_mul_div_loop_mul_div_add_sub_loop_add_sub_expression_dom (Inr (Inr (Inl p))) \<Longrightarrow> advances p (snd (add_sub p))"
  "factor_mul_div_loop_mul_div_add_sub_loop_add_sub_expression_dom (Inr (Inr (Inr p))) \<Longrightarrow> advances p (snd (expression p))"
proof (induct rule: factor_mul_div_loop_mul_div_add_sub_loop_add_sub_expression.pinduct)
  case (1 p)
  show ?case
  proof (cases "current p")
    case None
    then show ?thesis using 1(1) by (simp add: factor.psimps advances_refl)
  next
    case (Some t)
    show ?thesis
    proof (cases "tok_type t = NUM \<or> tok_type t = ID")
      case True
      then show ?thesis using 1(1) Some by (auto simp add: factor.psimps advances_def)
    next
      case nl: False
      show ?thesis
      proof (cases "tok_type t = LPAREN")
        case True
        have a: "advances p (snd (match LPAREN None p))" by (rule match_advances)
        have b: "advances (snd (match LPAREN None p)) (snd (expression (snd (match LPAREN None p))))"
          using 1(2)[OF Some nl True] .
        have c: "advances (snd (expression (snd (match LPAREN None p))))
                  (snd (match RPAREN None (snd (expression (snd (match LPAREN None p))))))"
          by (rule match_advances)
        from a b c have "advances p (snd (match RPAREN None (snd (expression (snd (match LPAREN None p))))))"
          by (blast intro: advances_trans)
        then show ?thesis using 1(1) Some nl True
          by (auto simp add: factor.psimps split: prod.splits)
      next
        case False
        then show ?thesis using 1(1) Some nl by (simp add: factor.psimps advances_refl)
      qed
    qed
  qed
next
  case (2 node p)
  show ?case
  proof (cases "match_op2 ''*'' ''/'' p")
    case (Pair x y)
    show ?thesis
    proof (cases x)
      case None
      then show ?thesis using 2(1) Pair by (auto simp add: mul_div_loop.psimps advances_refl dest: match_op2_None)
    next
      case (Some t)
      obtain xa ya where f: "factor y = (xa, ya)" by (cases "factor y")
      have a: "advances p y" using Pair Some match_op2_Some[of "''*''" "''/''" p t y] by (simp add: advances_def)
      have b: "advances y ya" using 2(2)[OF Pair[symmetric] Some] f by simp
      have c: "advances ya (snd (mul_div_loop (Some (BinOp (tok_value t) node xa)) ya))"
        using 2(3)[OF Pair[symmetric] Some f[symmetric]] .
      from a b c have "advances p (snd (mul_div_loop (Some (BinOp (tok_value t) node xa)) ya))"
        by (blast intro: advances_trans)
      then show ?thesis using 2(1) Pair Some f by (simp add: mul_div_loop.psimps)
    qed
  qed
next
  case (3 p)
  obtain x y where f: "factor p = (x, y)" by (cases "factor p")
  have "advances p y" using 3(2) f by simp
  moreover have "advances y (snd (mul_div_loop x y))" using 3(3)[OF f[symmetric]] .
  ultimately have "advances p (snd (mul_div_loop x y))" by (rule advances_trans)
  then show ?case using 3(1) f by (simp add: mul_div.psimps)
next
  case (4 node p)
  show ?case
  proof (cases "match_op2 ''+'' ''-'' p")
    case (Pair x y)
    show ?thesis
    proof (cases x)
      case None
      then show ?thesis using 4(1) Pair by (auto simp add: add_sub_loop.psimps advances_refl dest: match_op2_None)
    next
      case (Some t)
      obtain xa ya where f: "mul_div y = (xa, ya)" by (cases "mul_div y")
      have a: "advances p y" using Pair Some match_op2_Some[of "''+''" "''-''" p t y] by (simp add: advances_def)
      have b: "advances y ya" using 4(2)[OF Pair[symmetric] Some] f by simp
      have c: "advances ya (snd (add_sub_loop (Some (BinOp (tok_value t) node xa)) ya))"
        using 4(3)[OF Pair[symmetric] Some f[symmetric]] .
      from a b c have "advances p (snd (add_sub_loop (Some (BinOp (tok_value t) node xa)) ya))"
        by (blast intro: advances_trans)
      then show ?thesis using 4(1) Pair Some f by (simp add: add_sub_loop.psimps)
    qed
  qed
next
  case (5 p)
  obtain x y where f: "mul_div p = (x, y)" by (cases "mul_div p")
  have "advances p y" using 5(2) f by simp
  moreover have "advances y (snd (add_sub_loop x y))" using 5(3)[OF f[symmetric]] .
  ultimately have "advances p (snd (add_sub_loop x y))" by (rule advances_trans)
  then show ?case using 5(1) f by (simp add: add_sub.psimps)
next
  case (6 p)
  then show ?case by (simp add: expression.psimps)
qed

lemma remaining_advances: "advances p q \<Longrightarrow> remaining q \<le> remaining p"
  by (auto simp add: advances_def remaining_def intro: diff_le_mono2)

lemma remaining_match_op2: "(Some t, y) = match_op2 a b p \<Longrightarrow> remaining y < remaining p"
  using match_op2_Some[of a b p t y] by (auto simp add: remaining_def intro: diff_less_mono2)

lemma remaining_match_current:
  "current p = Some t \<Longrightarrow> tok_type t = ty \<Longrightarrow> remaining (snd (match ty None p)) < remaining p"
  by (auto simp: match_def current_def remaining_def split: if_splits)

termination factor
  apply (relation "inv_image (less_than <*lex*> less_than)
      (\<lambda>x. case x of
         Inl (Inl p) \<Rightarrow> (remaining p, 0::nat)
       | Inl (Inr (Inl np)) \<Rightarrow> (remaining (snd np), 1)
       | Inl (Inr (Inr p)) \<Rightarrow> (remaining p, 2)
       | Inr (Inl np) \<Rightarrow> (remaining (snd np), 3)
       | Inr (Inr (Inl p)) \<Rightarrow> (remaining p, 4)
       | Inr (Inr (Inr p)) \<Rightarrow> (remaining p, 5))")
  subgoal by (intro wf_inv_image wf_lex_prod wf_less_than)
  subgoal for p t by (simp add: remaining_match_current)
  subgoal for node p x y t by (simp add: remaining_match_op2)
  subgoal premises prems for node p x y t xa ya
  proof -
    have "remaining y < remaining p" using prems(1,2) by (simp add: remaining_match_op2)
    moreover have "remaining ya \<le> remaining y"
      using expr_partial(1)[OF prems(4)] prems(3) by (metis remaining_advances snd_conv)
    ultimately show ?thesis by simp
  qed
  subgoal by simp
  subgoal premises prems for p x y
  proof -
    have "remaining y \<le> remaining p"
      using expr_partial(1)[OF prems(2)] prems(1) by (metis remaining_advances snd_conv)
    then show ?thesis by auto
  qed
  subgoal for node p x y t by (simp add: remaining_match_op2)
  subgoal premises prems for node p x y t xa ya
  proof -
    have "remaining y < remaining p" using prems(1,2) by (simp add: remaining_match_op2)
    moreover have "remaining ya \<le> remaining y"
      using expr_partial(3)[OF prems(4)] prems(3) by (metis remaining_advances snd_conv)
    ultimately show ?thesis by simp
  qed
  subgoal by simp
  subgoal premises prems for p x y
  proof -
    have "remaining y \<le> remaining p"
      using expr_partial(3)[OF prems(2)] prems(1) by (metis remaining_advances snd_conv)
    then show ?thesis by auto
  qed
  subgoal by simp
  done


declare factor.simps [simp del] mul_div_loop.simps [simp del] mul_div.simps [simp del]
  add_sub_loop.simps [simp del] add_sub.simps [simp del] expression.simps [simp del]

subsection \<open>Statements\<close>

text \<open>
  Lines 129 to 137 of \<^verbatim>\<open>Parser.statement\<close>: the optional initialiser and the closing
  delimiter, reached once the declaration node has been appended.  \<open>ty\<close> and \<open>name\<close>
  are \<^verbatim>\<open>type_tok.value\<close> and \<^verbatim>\<open>id_tok.value\<close>.
\<close>

definition statement_init :: "string \<Rightarrow> string \<Rightarrow> parser \<Rightarrow> parser" where
  "statement_init ty name p =
     (case match OP (Some ''='') p of
        (Some eq_tok, p1) \<Rightarrow>
          (case expression p1 of
             (None, p2) \<Rightarrow> p2\<lparr>errors := errors p2 @ [''Syntax Error: Invalid expression'']\<rparr>
           | (Some e, p2) \<Rightarrow>
               (let p3 = p2\<lparr>ast := ast p2 @ [AssignExpr ty name e]\<rparr> in
                case match DELIM None p3 of
                  (None, p4) \<Rightarrow> p4\<lparr>errors := errors p4 @ [''Syntax Error: Missing semicolon'']\<rparr>
                | (Some d, p4) \<Rightarrow> p4))
      | (None, p1) \<Rightarrow>
          (case match DELIM None p1 of
             (None, p4) \<Rightarrow> p4\<lparr>errors := errors p4 @ [''Syntax Error: Missing semicolon'']\<rparr>
           | (Some d, p4) \<Rightarrow> p4))"

text \<open>
  \<^verbatim>\<open>Parser.statement\<close>.  Both \<^verbatim>\<open>match\<close> calls of lines 112 and 113 are made before
  the test; \<^verbatim>\<open>not size_tok or not self.match('RBRACKET')\<close> tries the bracket only when
  the size was matched.
\<close>

definition statement :: "parser \<Rightarrow> parser" where
  "statement p =
     (case match KEYWORD None p of
        (type_tok, p1) \<Rightarrow>
          (case match ID None p1 of
             (id_tok, p2) \<Rightarrow>
               (case (type_tok, id_tok) of
                  (Some ty, Some idt) \<Rightarrow>
                    (case match LBRACKET None p2 of
                       (Some lb, p3) \<Rightarrow>
                         (case match NUM None p3 of
                            (None, p4) \<Rightarrow>
                              p4\<lparr>errors := errors p4 @ [''Syntax Error: Invalid array declaration'']\<rparr>
                          | (Some size_tok, p4) \<Rightarrow>
                              (case match RBRACKET None p4 of
                                 (None, p5) \<Rightarrow>
                                   p5\<lparr>errors := errors p5 @ [''Syntax Error: Invalid array declaration'']\<rparr>
                               | (Some rb, p5) \<Rightarrow>
                                   statement_init (tok_value ty) (tok_value idt)
                                     (p5\<lparr>ast := ast p5 @
                                        [DeclareArray (tok_value ty) (tok_value idt) (tok_value size_tok)]\<rparr>)))
                     | (None, p3) \<Rightarrow>
                         statement_init (tok_value ty) (tok_value idt)
                           (p3\<lparr>ast := ast p3 @ [Declare (tok_value ty) (tok_value idt)]\<rparr>))
                | _ \<Rightarrow>
                    p2\<lparr>errors := errors p2 @ [''Syntax Error: Invalid declaration''],
                       pos := pos p2 + 1\<rparr>)))"

definition printf_statement :: "parser \<Rightarrow> parser" where
  "printf_statement p =
     (case match KEYWORD (Some ''printf'') p of
        (kw, p1) \<Rightarrow>
          (case match LPAREN None p1 of
             (None, p2) \<Rightarrow> p2\<lparr>errors := errors p2 @ [''Syntax Error: Expected '' @ [CHR 0x27, CHR ''('', CHR 0x27]]\<rparr>
           | (Some lp, p2) \<Rightarrow>
               (case match STRING None p2 of
                  (None, p3) \<Rightarrow> p3\<lparr>errors := errors p3 @ [''Syntax Error: Expected string in printf'']\<rparr>
                | (Some str_tok, p3) \<Rightarrow>
                    (case match RPAREN None p3 of
                       (None, p4) \<Rightarrow>
                         p4\<lparr>errors := errors p4 @
                            [''Syntax Error: Expected '' @ [CHR 0x27, CHR '')'', CHR 0x27] @ '' in printf'']\<rparr>
                     | (Some rp, p4) \<Rightarrow>
                         (case match DELIM None p4 of
                            (None, p5) \<Rightarrow>
                              p5\<lparr>errors := errors p5 @ [''Syntax Error: Missing semicolon after printf'']\<rparr>
                          | (Some d, p5) \<Rightarrow> p5\<lparr>ast := ast p5 @ [Printf (tok_value str_tok)]\<rparr>)))))"

subsection \<open>Progress of the cursor\<close>

text \<open>The expression grammar only moves the cursor: it never touches the token list, the
  tree or the diagnostics.\<close>

definition moved :: "parser \<Rightarrow> parser \<Rightarrow> bool" where
  "moved p p' \<longleftrightarrow> p' = p\<lparr>pos := pos p'\<rparr> \<and> pos p \<le> pos p'"

lemma moved_refl: "moved p p"
  by (simp add: moved_def)

lemma moved_trans: "moved p q \<Longrightarrow> moved q r \<Longrightarrow> moved p r"
  by (cases p, cases q, cases r) (auto simp: moved_def)

lemma moved_fields:
  "moved p p' \<Longrightarrow> tokens p' = tokens p \<and> ast p' = ast p \<and> errors p' = errors p \<and> pos p \<le> pos p'"
  by (cases p, cases p') (auto simp: moved_def)

lemma match_moved: "moved p (snd (match ty v p))"
  by (auto simp: match_def moved_def split: option.splits)

lemma match_op2_moved: "moved p (snd (match_op2 a b p))"
  using match_moved[of p OP "Some a"] match_moved[of p OP "Some b"]
  by (auto simp: match_op2_def split: prod.splits option.splits dest: match_None_same)

lemma expr_moved:
  "moved p (snd (factor p))"
  "moved p (snd (mul_div_loop node p))"
  "moved p (snd (mul_div p))"
  "moved p (snd (add_sub_loop node' p))"
  "moved p (snd (add_sub p))"
  "moved p (snd (expression p))"
proof (induct p and node p and p and node' p and p and p
    rule: factor_mul_div_loop_mul_div_add_sub_loop_add_sub_expression.induct)
  case (1 p)
  show ?case
  proof (cases "current p")
    case None
    then show ?thesis by (simp add: factor.simps moved_refl)
  next
    case (Some t)
    show ?thesis
    proof (cases "tok_type t = NUM \<or> tok_type t = ID")
      case True
      then show ?thesis using Some by (auto simp add: factor.simps moved_def)
    next
      case nl: False
      show ?thesis
      proof (cases "tok_type t = LPAREN")
        case True
        let ?q = "snd (match LPAREN None p)"
        have "moved p ?q" by (rule match_moved)
        moreover have "moved ?q (snd (expression ?q))" using 1[OF Some nl True] .
        moreover have "moved (snd (expression ?q)) (snd (match RPAREN None (snd (expression ?q))))"
          by (rule match_moved)
        ultimately have "moved p (snd (match RPAREN None (snd (expression ?q))))"
          by (blast intro: moved_trans)
        then show ?thesis using Some nl True
          by (auto simp add: factor.simps split: prod.splits)
      next
        case False
        then show ?thesis using Some nl by (simp add: factor.simps moved_refl)
      qed
    qed
  qed
next
  case (2 node p)
  show ?case
  proof (cases "match_op2 ''*'' ''/'' p")
    case (Pair x y)
    have a: "moved p y" using match_op2_moved[of p "''*''" "''/''"] Pair by simp
    show ?thesis
    proof (cases x)
      case None
      then show ?thesis using Pair a by (simp add: mul_div_loop.simps)
    next
      case (Some t)
      obtain xa ya where f: "factor y = (xa, ya)" by (cases "factor y")
      have b: "moved y ya" using 2(1)[OF Pair[symmetric] Some] f by simp
      have c: "moved ya (snd (mul_div_loop (Some (BinOp (tok_value t) node xa)) ya))"
        using 2(2)[OF Pair[symmetric] Some f[symmetric]] .
      from a b c have "moved p (snd (mul_div_loop (Some (BinOp (tok_value t) node xa)) ya))"
        by (blast intro: moved_trans)
      then show ?thesis using Pair Some f by (simp add: mul_div_loop.simps)
    qed
  qed
next
  case (3 p)
  obtain x y where f: "factor p = (x, y)" by (cases "factor p")
  have "moved p y" using 3(1) f by simp
  moreover have "moved y (snd (mul_div_loop x y))" using 3(2)[OF f[symmetric]] .
  ultimately have "moved p (snd (mul_div_loop x y))" by (rule moved_trans)
  then show ?case using f by (simp add: mul_div.simps)
next
  case (4 node p)
  show ?case
  proof (cases "match_op2 ''+'' ''-'' p")
    case (Pair x y)
    have a: "moved p y" using match_op2_moved[of p "''+''" "''-''"] Pair by simp
    show ?thesis
    proof (cases x)
      case None
      then show ?thesis using Pair a by (simp add: add_sub_loop.simps)
    next
      case (Some t)
      obtain xa ya where f: "mul_div y = (xa, ya)" by (cases "mul_div y")
      have b: "moved y ya" using 4(1)[OF Pair[symmetric] Some] f by simp
      have c: "moved ya (snd (add_sub_loop (Some (BinOp (tok_value t) node xa)) ya))"
        using 4(2)[OF Pair[symmetric] Some f[symmetric]] .
      from a b c have "moved p (snd (add_sub_loop (Some (BinOp (tok_value t) node xa)) ya))"
        by (blast intro: moved_trans)
      then show ?thesis using Pair Some f by (simp add: add_sub_loop.simps)
    qed
  qed
next
  case (5 p)
  obtain x y where f: "mul_div p = (x, y)" by (cases "mul_div p")
  have "moved p y" using 5(1) f by simp
  moreover have "moved y (snd (add_sub_loop x y))" using 5(2)[OF f[symmetric]] .
  ultimately have "moved p (snd (add_sub_loop x y))" by (rule moved_trans)
  then show ?case using f by (simp add: add_sub.simps)
next
  case (6 p)
  then show ?case by (simp add: expression.simps)
qed

lemma match_fields:
  assumes "match ty v p = (r, p')"
  shows "tokens p' = tokens p" "ast p' = ast p" "errors p' = errors p" "pos p \<le> pos p'"
    "r \<noteq> None \<Longrightarrow> pos p' = Suc (pos p)"
  using assms by (auto simp: match_def split: option.splits if_splits)

lemma expression_fields:
  assumes "expression p = (r, p')"
  shows "tokens p' = tokens p" "ast p' = ast p" "errors p' = errors p" "pos p \<le> pos p'"
  using moved_fields[OF expr_moved(6)[of p]] assms by simp_all

text \<open>What \<open>statement_init\<close> appends: nothing, or one assignment to the declared name.\<close>

lemma statement_init_shape:
  "tokens (statement_init ty name p) = tokens p \<and> pos p \<le> pos (statement_init ty name p) \<and>
   (ast (statement_init ty name p) = ast p \<or>
    (\<exists>e. ast (statement_init ty name p) = ast p @ [AssignExpr ty name e]))"
proof -
  obtain r1 p1 where m1: "match OP (Some ''='') p = (r1, p1)" by (cases "match OP (Some ''='') p")
  note f1 = match_fields[OF m1]
  show ?thesis
  proof (cases r1)
    case None
    obtain r4 p4 where m4: "match DELIM None p1 = (r4, p4)" by (cases "match DELIM None p1")
    note f4 = match_fields[OF m4]
    show ?thesis using None m1 m4 f1 f4
      by (cases r4) (simp_all add: statement_init_def)
  next
    case (Some eq_tok)
    obtain e p2 where ex: "expression p1 = (e, p2)" by (cases "expression p1")
    note f2 = expression_fields[OF ex]
    show ?thesis
    proof (cases e)
      case None
      then show ?thesis using Some m1 ex f1 f2 by (simp add: statement_init_def)
    next
      case (Some e')
      let ?p3 = "p2\<lparr>ast := ast p2 @ [AssignExpr ty name e']\<rparr>"
      obtain r4 p4 where m4: "match DELIM None ?p3 = (r4, p4)" by (cases "match DELIM None ?p3")
      note f4 = match_fields[OF m4]
      show ?thesis using Some \<open>r1 = Some eq_tok\<close> m1 ex m4 f1 f2 f4
        by (cases r4) (simp_all add: statement_init_def Let_def)
    qed
  qed
qed


fun decl_block :: "stmt list \<Rightarrow> bool" where
  "decl_block [] = True"
| "decl_block [Declare t n] = True"
| "decl_block [DeclareArray t n s] = True"
| "decl_block [Declare t n, AssignExpr t' n' e] = (n' = n)"
| "decl_block [DeclareArray t n s, AssignExpr t' n' e] = (n' = n)"
| "decl_block b = False"

lemma statement_shape:
  "tokens (statement p) = tokens p \<and> pos p < pos (statement p) \<and>
   (\<exists>b. ast (statement p) = ast p @ b \<and> decl_block b)"
proof -
  obtain ty p1 where m1: "match KEYWORD None p = (ty, p1)" by (cases "match KEYWORD None p")
  obtain idt p2 where m2: "match ID None p1 = (idt, p2)" by (cases "match ID None p1")
  note f1 = match_fields[OF m1] and f2 = match_fields[OF m2]
  show ?thesis
  proof (cases "ty = None \<or> idt = None")
    case True
    then have "statement p = p2\<lparr>errors := errors p2 @ [''Syntax Error: Invalid declaration''],
        pos := pos p2 + 1\<rparr>"
      using m1 m2 by (auto simp: statement_def split: option.splits)
    then show ?thesis using f1 f2 by simp
  next
    case False
    then obtain t i where ti: "ty = Some t" "idt = Some i" by auto
    have lt: "pos p < pos p2" using f1(4,5) f2(4,5) ti by simp
    obtain lb p3 where m3: "match LBRACKET None p2 = (lb, p3)" by (cases "match LBRACKET None p2")
    note f3 = match_fields[OF m3]
    show ?thesis
    proof (cases lb)
      case None
      let ?q = "p3\<lparr>ast := ast p3 @ [Declare (tok_value t) (tok_value i)]\<rparr>"
      have st: "statement p = statement_init (tok_value t) (tok_value i) ?q"
        using m1 m2 m3 ti None by (simp add: statement_def)
      from statement_init_shape[of "tok_value t" "tok_value i" ?q] show ?thesis
        unfolding st using f1 f2 f3 lt by auto
    next
      case (Some l)
      obtain sz p4 where m4: "match NUM None p3 = (sz, p4)" by (cases "match NUM None p3")
      note f4 = match_fields[OF m4]
      show ?thesis
      proof (cases sz)
        case None
        then have "statement p = p4\<lparr>errors := errors p4 @ [''Syntax Error: Invalid array declaration'']\<rparr>"
          using m1 m2 m3 m4 ti Some by (simp add: statement_def)
        then show ?thesis using f1 f2 f3 f4 lt by simp
      next
        case sz: (Some size_tok)
        obtain rb p5 where m5: "match RBRACKET None p4 = (rb, p5)" by (cases "match RBRACKET None p4")
        note f5 = match_fields[OF m5]
        show ?thesis
        proof (cases rb)
          case None
          then have "statement p = p5\<lparr>errors := errors p5 @ [''Syntax Error: Invalid array declaration'']\<rparr>"
            using m1 m2 m3 m4 m5 ti Some sz by (simp add: statement_def)
          then show ?thesis using f1 f2 f3 f4 f5 lt by simp
        next
          case rb: (Some r)
          let ?q = "p5\<lparr>ast := ast p5 @
              [DeclareArray (tok_value t) (tok_value i) (tok_value size_tok)]\<rparr>"
          have st: "statement p = statement_init (tok_value t) (tok_value i) ?q"
            using m1 m2 m3 m4 m5 ti Some sz rb by (simp add: statement_def)
          from statement_init_shape[of "tok_value t" "tok_value i" ?q] show ?thesis
            unfolding st using f1 f2 f3 f4 f5 lt by auto
        qed
      qed
    qed
  qed
qed

lemma printf_statement_shape:
  "tokens (printf_statement p) = tokens p \<and> pos p \<le> pos (printf_statement p) \<and>
   (ast (printf_statement p) = ast p \<or> (\<exists>s. ast (printf_statement p) = ast p @ [Printf s]))"
proof -
  obtain r1 p1 where m1: "match KEYWORD (Some ''printf'') p = (r1, p1)"
    by (cases "match KEYWORD (Some ''printf'') p")
  obtain r2 p2 where m2: "match LPAREN None p1 = (r2, p2)" by (cases "match LPAREN None p1")
  obtain r3 p3 where m3: "match STRING None p2 = (r3, p3)" by (cases "match STRING None p2")
  obtain r4 p4 where m4: "match RPAREN None p3 = (r4, p4)" by (cases "match RPAREN None p3")
  obtain r5 p5 where m5: "match DELIM None p4 = (r5, p5)" by (cases "match DELIM None p4")
  note f = match_fields[OF m1] match_fields[OF m2] match_fields[OF m3] match_fields[OF m4]
    match_fields[OF m5]
  show ?thesis using m1 m2 m3 m4 m5 f
    by (cases r2; cases r3; cases r4; cases r5) (simp_all add: printf_statement_def)
qed

lemma printf_statement_progress:
  assumes "current p = Some t" "tok_type t = KEYWORD" "tok_value t = ''printf''"
  shows "pos p < pos (printf_statement p)"
proof -
  have m1: "match KEYWORD (Some ''printf'') p = (Some t, p\<lparr>pos := pos p + 1\<rparr>)"
    using assms by (simp add: match_def)
  let ?p1 = "p\<lparr>pos := pos p + 1\<rparr>"
  obtain r2 p2 where m2: "match LPAREN None ?p1 = (r2, p2)" by (cases "match LPAREN None ?p1")
  obtain r3 p3 where m3: "match STRING None p2 = (r3, p3)" by (cases "match STRING None p2")
  obtain r4 p4 where m4: "match RPAREN None p3 = (r4, p4)" by (cases "match RPAREN None p3")
  obtain r5 p5 where m5: "match DELIM None p4 = (r5, p5)" by (cases "match DELIM None p4")
  note f = match_fields[OF m2] match_fields[OF m3] match_fields[OF m4] match_fields[OF m5]
  show ?thesis using m1 m2 m3 m4 m5 f
    by (cases r2; cases r3; cases r4; cases r5) (simp_all add: printf_statement_def)
qed

subsection \<open>Function definitions and the driver\<close>

text \<open>The \<^verbatim>\<open>while\<close> loop of \<^verbatim>\<open>function_definition\<close> (lines 101 to 106): its body,
  where \<open>token\<close> is \<^verbatim>\<open>self.current()\<close>, and the loop.\<close>

definition body_step :: "token \<Rightarrow> parser \<Rightarrow> parser" where
  "body_step token p =
     (if tok_type token = KEYWORD \<and> tok_value token = ''printf''
      then printf_statement p
      else statement p)"

function function_body :: "parser \<Rightarrow> parser" where
  "function_body p =
     (case current p of
        None \<Rightarrow> p
      | Some token \<Rightarrow>
          if tok_type token \<noteq> RBRACE
          then function_body (body_step token p)
          else p)"
  by pat_completeness auto

lemma current_Some_pos: "current p = Some t \<Longrightarrow> pos p < length (tokens p)"
  by (simp add: current_def split: if_splits)

lemma remaining_less:
  "tokens q = tokens p \<Longrightarrow> pos p < pos q \<Longrightarrow> pos p < length (tokens p) \<Longrightarrow> remaining q < remaining p"
  by (simp add: remaining_def diff_less_mono2)

lemma body_step_progress:
  assumes "current p = Some token"
  shows "tokens (body_step token p) = tokens p \<and> pos p < pos (body_step token p)"
proof (cases "tok_type token = KEYWORD \<and> tok_value token = ''printf''")
  case True
  then show ?thesis
    using assms printf_statement_progress[of p token] printf_statement_shape[of p]
    by (simp add: body_step_def)
next
  case False
  then show ?thesis using statement_shape[of p] by (auto simp add: body_step_def)
qed

termination function_body
proof (relation "measure remaining", goal_cases)
  case 1
  show ?case by simp
next
  case (2 p token)
  then show ?case
    using body_step_progress[of p token] by (simp add: remaining_less current_Some_pos)
qed

declare function_body.simps [simp del]

definition function_definition :: "parser \<Rightarrow> parser" where
  "function_definition p =
     (case match KEYWORD None p of
        (ret_type, p1) \<Rightarrow>
          (case (case match KEYWORD None p1 of
                   (Some t, q) \<Rightarrow> (Some t, q)
                 | (None, q) \<Rightarrow> match ID None q) of
             (func_name, p2) \<Rightarrow>
               (case match LPAREN None p2 of
                  (lp, p3) \<Rightarrow>
                    (case match RPAREN None p3 of
                       (rp, p4) \<Rightarrow>
                         (case match LBRACE None p4 of
                            (None, p5) \<Rightarrow>
                              p5\<lparr>errors := errors p5 @
                                 [''Syntax Error: Missing '' @ [CHR 0x27, CHR ''{'', CHR 0x27] @ '' in function'']\<rparr>
                          | (Some lb, p5) \<Rightarrow>
                              (case match RBRACE None (function_body p5) of
                                 (None, p6) \<Rightarrow>
                                   p6\<lparr>errors := errors p6 @
                                      [''Syntax Error: Missing '' @ [CHR 0x27, CHR ''}'', CHR 0x27] @ '' in function'']\<rparr>
                               | (Some rb, p6) \<Rightarrow> p6))))))"

definition lookahead_is_function :: "parser \<Rightarrow> bool" where
  "lookahead_is_function p \<longleftrightarrow>
     pos p + 1 < length (tokens p) \<and>
     (tok_type (tokens p ! (pos p + 1)) = ID \<or> tok_type (tokens p ! (pos p + 1)) = KEYWORD) \<and>
     tok_value (tokens p ! (pos p + 1)) = ''main''"

text \<open>One iteration of the \<^verbatim>\<open>while\<close> loop of \<^verbatim>\<open>Parser.parse\<close>; \<open>token\<close> is
  \<^verbatim>\<open>self.current()\<close>, which under the loop condition is \<^verbatim>\<open>self.tokens[self.pos]\<close>.\<close>

definition parse_step :: "token \<Rightarrow> parser \<Rightarrow> parser" where
  "parse_step token p =
     (if tok_type token = INCLUDE
      then p\<lparr>ast := ast p @ [Include (tok_value token)], pos := pos p + 1\<rparr>
      else if tok_type token = KEYWORD
      then (if lookahead_is_function p then function_definition p
            else if tok_value token = ''printf'' then printf_statement p
            else statement p)
      else statement p)"

function parse_loop :: "parser \<Rightarrow> parser" where
  "parse_loop p =
     (if pos p < length (tokens p) then parse_loop (parse_step (tokens p ! pos p) p) else p)"
  by pat_completeness auto

text \<open>
  The shape of the tree: an \<^verbatim>\<open>assign_expr\<close> node stands directly behind a
  \<^verbatim>\<open>declare\<close> or \<^verbatim>\<open>declare_array\<close> node of the same name.  \<open>prev\<close> is the
  node before the list.
\<close>

fun declares :: "stmt option \<Rightarrow> string \<Rightarrow> bool" where
  "declares (Some (Declare t n)) m = (n = m)"
| "declares (Some (DeclareArray t n s)) m = (n = m)"
| "declares _ m = False"

fun assigns_follow :: "stmt option \<Rightarrow> stmt list \<Rightarrow> bool" where
  "assigns_follow prev [] = True"
| "assigns_follow prev (AssignExpr t n e # rest) =
     (declares prev n \<and> assigns_follow (Some (AssignExpr t n e)) rest)"
| "assigns_follow prev (s # rest) = assigns_follow (Some s) rest"

lemma assigns_follow_weaken: "assigns_follow None b \<Longrightarrow> assigns_follow prev b"
proof (cases b)
  case Nil
  then show ?thesis by simp
next
  case (Cons s rest)
  assume "assigns_follow None b"
  then show ?thesis using Cons by (cases s) simp_all
qed

lemma assigns_follow_append:
  "assigns_follow prev xs \<Longrightarrow> assigns_follow None ys \<Longrightarrow> assigns_follow prev (xs @ ys)"
  by (induction prev xs rule: assigns_follow.induct) (auto intro: assigns_follow_weaken)

lemma decl_block_follow: "decl_block b \<Longrightarrow> assigns_follow None b"
  by (induction b rule: decl_block.induct) auto

definition grows :: "parser \<Rightarrow> parser \<Rightarrow> bool" where
  "grows p p' \<longleftrightarrow>
     tokens p' = tokens p \<and> pos p \<le> pos p' \<and> (\<exists>b. ast p' = ast p @ b \<and> assigns_follow None b)"

lemma grows_refl: "grows p p"
  by (simp add: grows_def)

lemma grows_trans: "grows p q \<Longrightarrow> grows q r \<Longrightarrow> grows p r"
  unfolding grows_def
  by (metis append.assoc assigns_follow_append le_trans)

lemma grows_match: "match ty v p = (r, p') \<Longrightarrow> grows p p'"
  using match_fields[of ty v p r p'] by (simp add: grows_def)

lemma grows_errors: "grows p q \<Longrightarrow> grows p (q\<lparr>errors := e\<rparr>)"
  by (simp add: grows_def)

lemma grows_statement: "grows p (statement p)"
  using statement_shape[of p] decl_block_follow by (auto simp: grows_def)

lemma grows_printf_statement: "grows p (printf_statement p)"
  using printf_statement_shape[of p] by (auto simp: grows_def)

lemma grows_function_body: "grows p (function_body p)"
proof (induction p rule: function_body.induct)
  case (1 p)
  show ?case
  proof (cases "current p")
    case None
    then show ?thesis by (simp add: function_body.simps grows_refl)
  next
    case (Some token)
    show ?thesis
    proof (cases "tok_type token \<noteq> RBRACE")
      case False
      then show ?thesis using Some by (simp add: function_body.simps grows_refl)
    next
      case True
      let ?q = "body_step token p"
      have "grows p ?q" by (simp add: body_step_def grows_statement grows_printf_statement)
      moreover have "grows ?q (function_body ?q)" using 1[OF Some True] .
      ultimately have "grows p (function_body ?q)" by (rule grows_trans)
      moreover have "function_body p = function_body ?q"
        using Some True by (subst function_body.simps) simp
      ultimately show ?thesis by simp
    qed
  qed
qed

lemma function_definition_shape:
  "grows p (function_definition p) \<and>
   (\<forall>t. current p = Some t \<and> tok_type t = KEYWORD \<longrightarrow> pos p < pos (function_definition p))"
proof -
  obtain r1 p1 where m1: "match KEYWORD None p = (r1, p1)" by (cases "match KEYWORD None p")
  obtain r2 p2 where m2: "(case match KEYWORD None p1 of
                   (Some t, q) \<Rightarrow> (Some t, q)
                 | (None, q) \<Rightarrow> match ID None q) = (r2, p2)"
    by (cases "(case match KEYWORD None p1 of
                   (Some t, q) \<Rightarrow> (Some t, q)
                 | (None, q) \<Rightarrow> match ID None q)")
  obtain r3 p3 where m3: "match LPAREN None p2 = (r3, p3)" by (cases "match LPAREN None p2")
  obtain r4 p4 where m4: "match RPAREN None p3 = (r4, p4)" by (cases "match RPAREN None p3")
  obtain r5 p5 where m5: "match LBRACE None p4 = (r5, p5)" by (cases "match LBRACE None p4")
  obtain r6 p6 where m6: "match RBRACE None (function_body p5) = (r6, p6)"
    by (cases "match RBRACE None (function_body p5)")
  have g1: "grows p p1" using m1 by (rule grows_match)
  have g2: "grows p1 p2"
  proof (cases "match KEYWORD None p1")
    case (Pair a q)
    show ?thesis
    proof (cases a)
      case None
      then have "q = p1" using Pair by (simp add: match_None_same)
      then show ?thesis using m2 Pair None by (simp add: grows_match)
    next
      case (Some t)
      then show ?thesis using m2 Pair grows_match[OF Pair] by simp
    qed
  qed
  have g3: "grows p2 p3" using m3 by (rule grows_match)
  have g4: "grows p3 p4" using m4 by (rule grows_match)
  have g5: "grows p4 p5" using m5 by (rule grows_match)
  have g6: "grows p5 p6" using grows_function_body[of p5] grows_match[OF m6] by (rule grows_trans)
  have g15: "grows p1 p5" using g2 g3 g4 g5 by (blast intro: grows_trans)
  have g16: "grows p1 p6" using g15 g6 by (rule grows_trans)
  have fd: "function_definition p =
      (case r5 of None \<Rightarrow> p5\<lparr>errors := errors p5 @
                 [''Syntax Error: Missing '' @ [CHR 0x27, CHR ''{'', CHR 0x27] @ '' in function'']\<rparr>
       | Some lb \<Rightarrow> (case r6 of None \<Rightarrow> p6\<lparr>errors := errors p6 @
                 [''Syntax Error: Missing '' @ [CHR 0x27, CHR ''}'', CHR 0x27] @ '' in function'']\<rparr>
            | Some rb \<Rightarrow> p6))"
    using m1 m2 m3 m4 m5 m6 by (cases r5) (simp_all add: function_definition_def)
  have res: "grows p1 (function_definition p)"
    unfolding fd using g15 g16 by (auto split: option.splits intro: grows_errors)
  have a: "grows p (function_definition p)" using g1 res by (rule grows_trans)
  have b: "pos p < pos (function_definition p)" if "current p = Some t" "tok_type t = KEYWORD" for t
  proof -
    have "pos p1 = Suc (pos p)" using that m1 by (auto simp: match_def)
    then show ?thesis using res by (simp add: grows_def)
  qed
  show ?thesis using a b by blast
qed

lemma parse_step_shape:
  assumes "pos p < length (tokens p)"
  shows "grows p (parse_step (tokens p ! pos p) p) \<and> pos p < pos (parse_step (tokens p ! pos p) p)"
proof -
  let ?t = "tokens p ! pos p"
  have cur: "current p = Some ?t" using assms by (simp add: current_def)
  show ?thesis
  proof (cases "tok_type ?t = INCLUDE")
    case True
    then show ?thesis by (simp add: parse_step_def grows_def)
  next
    case ni: False
    show ?thesis
    proof (cases "tok_type ?t = KEYWORD")
      case False
      then show ?thesis
        using ni grows_statement[of p] statement_shape[of p] by (simp add: parse_step_def)
    next
      case kw: True
      show ?thesis
      proof (cases "lookahead_is_function p")
        case True
        then show ?thesis
          using ni kw function_definition_shape[of p] cur by (simp add: parse_step_def)
      next
        case nf: False
        show ?thesis
        proof (cases "tok_value ?t = ''printf''")
          case True
          then show ?thesis
            using ni kw nf grows_printf_statement[of p] printf_statement_progress[OF cur]
            by (simp add: parse_step_def)
        next
          case False
          then show ?thesis
            using ni kw nf grows_statement[of p] statement_shape[of p] by (simp add: parse_step_def)
        qed
      qed
    qed
  qed
qed

termination parse_loop
proof (relation "measure remaining", goal_cases)
  case 1
  show ?case by simp
next
  case (2 p)
  then show ?case using parse_step_shape[of p] by (simp add: remaining_less grows_def)
qed


declare parse_loop.simps [simp del]

text \<open>\<^verbatim>\<open>Parser(tokens).parse()\<close>: the pair \<^verbatim>\<open>(self.ast, self.errors)\<close>.\<close>

definition parse :: "token list \<Rightarrow> stmt list \<times> string list" where
  "parse ts = (let p = parse_loop (Parser ts) in (ast p, errors p))"

lemma grows_parse_loop: "grows p (parse_loop p)"
proof (induction p rule: parse_loop.induct)
  case (1 p)
  show ?case
  proof (cases "pos p < length (tokens p)")
    case True
    have "grows p (parse_step (tokens p ! pos p) p)" using parse_step_shape[OF True] by simp
    moreover have "grows (parse_step (tokens p ! pos p) p) (parse_loop (parse_step (tokens p ! pos p) p))"
      using 1[OF True] .
    ultimately have "grows p (parse_loop (parse_step (tokens p ! pos p) p))" by (rule grows_trans)
    then show ?thesis using True by (subst parse_loop.simps) simp
  next
    case False
    then show ?thesis by (subst parse_loop.simps) (simp add: grows_refl)
  qed
qed

section \<open>Semantic analyzer\<close>

record semantic =
  symbols :: "string set"
  sem_errors :: "string list"

definition SemanticAnalyzer :: semantic where
  "SemanticAnalyzer = \<lparr>symbols = {}, sem_errors = []\<rparr>"

definition redeclared :: "string \<Rightarrow> string" where
  "redeclared name = ''Semantic Error: '' @ [CHR 0x27] @ name @ [CHR 0x27] @ '' redeclared''"

definition undeclared :: "string \<Rightarrow> string" where
  "undeclared name = ''Semantic Error: Undeclared variable '' @ [CHR 0x27] @ name @ [CHR 0x27]"

text \<open>The body of the \<^verbatim>\<open>for\<close> loop of \<^verbatim>\<open>SemanticAnalyzer.analyze\<close>.\<close>

fun analyze_stmt :: "stmt \<Rightarrow> semantic \<Rightarrow> semantic" where
  "analyze_stmt (Declare t name) s =
     (if name \<in> symbols s then s\<lparr>sem_errors := sem_errors s @ [redeclared name]\<rparr>
      else s\<lparr>symbols := insert name (symbols s)\<rparr>)"
| "analyze_stmt (DeclareArray t name sz) s =
     (if name \<in> symbols s then s\<lparr>sem_errors := sem_errors s @ [redeclared name]\<rparr>
      else s\<lparr>symbols := insert name (symbols s)\<rparr>)"
| "analyze_stmt (AssignExpr t name e) s =
     (if name \<notin> symbols s then s\<lparr>sem_errors := sem_errors s @ [undeclared name]\<rparr> else s)"
| "analyze_stmt (Include v) s = s"
| "analyze_stmt (Printf v) s = s"

fun analyze_loop :: "stmt list \<Rightarrow> semantic \<Rightarrow> semantic" where
  "analyze_loop [] s = s"
| "analyze_loop (stmt # rest) s = analyze_loop rest (analyze_stmt stmt s)"

definition analyze :: "stmt list \<Rightarrow> string list" where
  "analyze tree = sem_errors (analyze_loop tree SemanticAnalyzer)"

section \<open>Intermediate code generator\<close>

text \<open>The exceptions the pipeline can raise, with the text \<^verbatim>\<open>str(e)\<close> gives.\<close>

datatype exn = RuntimeError string | TypeError string

fun str_exn :: "exn \<Rightarrow> string" where
  "str_exn (RuntimeError m) = m"
| "str_exn (TypeError m) = m"

record icg =
  code :: "string list"
  temp_count :: nat

definition ICG :: icg where
  "ICG = \<lparr>code = [], temp_count = 0\<rparr>"

text \<open>Python's decimal rendering of a non-negative integer in an f-string.\<close>

function str_nat :: "nat \<Rightarrow> string" where
  "str_nat n = (if n < 10 then [char_of (48 + n)] else str_nat (n div 10) @ [char_of (48 + n mod 10)])"
  by pat_completeness auto
termination
  by (relation "measure id") auto

declare str_nat.simps [simp del]

definition new_temp :: "icg \<Rightarrow> string \<times> icg" where
  "new_temp g = (let g' = g\<lparr>temp_count := temp_count g + 1\<rparr> in (''t'' @ str_nat (temp_count g'), g'))"

text \<open>
  \<^verbatim>\<open>handle_expr\<close>.  On \<^verbatim>\<open>None\<close> the subscript \<^verbatim>\<open>node[0]\<close> raises \<^verbatim>\<open>TypeError\<close>; the
  exception leaves through both callers.
\<close>

fun handle_expr :: "expr option \<Rightarrow> icg \<Rightarrow> exn + (string \<times> icg)" where
  "handle_expr None g = Inl (TypeError ([CHR 0x27] @ ''NoneType'' @ [CHR 0x27] @ '' object is not subscriptable''))"
| "handle_expr (Some (Leaf v)) g = Inr (v, g)"
| "handle_expr (Some (BinOp opr left right)) g =
     (case handle_expr left g of
        Inl e \<Rightarrow> Inl e
      | Inr (l, g1) \<Rightarrow>
          (case handle_expr right g1 of
             Inl e \<Rightarrow> Inl e
           | Inr (r, g2) \<Rightarrow>
               (case new_temp g2 of
                  (temp, g3) \<Rightarrow>
                    Inr (temp, g3\<lparr>code := code g3 @ [temp @ '' = '' @ l @ '' '' @ opr @ '' '' @ r]\<rparr>))))"

text \<open>The body of the \<^verbatim>\<open>for\<close> loop of \<^verbatim>\<open>ICG.generate\<close>, and the loop.\<close>

fun generate_stmt :: "stmt \<Rightarrow> icg \<Rightarrow> exn + icg" where
  "generate_stmt (Include v) g = Inr (g\<lparr>code := code g @ [v]\<rparr>)"
| "generate_stmt (Declare typ name) g = Inr (g\<lparr>code := code g @ [typ @ '' '' @ name]\<rparr>)"
| "generate_stmt (DeclareArray typ name sz) g =
     Inr (g\<lparr>code := code g @ [typ @ '' '' @ name @ ''['' @ sz @ '']'']\<rparr>)"
| "generate_stmt (AssignExpr typ name e) g =
     (case handle_expr (Some e) g of
        Inl ex \<Rightarrow> Inl ex
      | Inr (result, g1) \<Rightarrow> Inr (g1\<lparr>code := code g1 @ [name @ '' = '' @ result]\<rparr>))"
| "generate_stmt (Printf string_value) g = Inr (g\<lparr>code := code g @ [''print '' @ string_value]\<rparr>)"

fun generate_loop :: "stmt list \<Rightarrow> icg \<Rightarrow> exn + icg" where
  "generate_loop [] g = Inr g"
| "generate_loop (stmt # rest) g =
     (case generate_stmt stmt g of Inl ex \<Rightarrow> Inl ex | Inr g1 \<Rightarrow> generate_loop rest g1)"

definition generate :: "stmt list \<Rightarrow> exn + string list" where
  "generate tree = (case generate_loop tree ICG of Inl ex \<Rightarrow> Inl ex | Inr g \<Rightarrow> Inr (code g))"

section \<open>Lexer\<close>

text \<open>
  The patterns of \<^verbatim>\<open>token_spec\<close> are regular expressions of Python's \<^verbatim>\<open>re\<close>.  They are
  represented by a syntax tree of the constructs they use, and matched by a backtracking
  matcher that returns the ways a pattern can match at a position in the order in which
  \<^verbatim>\<open>re\<close> tries them: alternatives from left to right, a greedy repetition longest first, the
  lazy repetition of \<^verbatim>\<open>".*?"\<close> shortest first.  A character is a code point below 256; the
  classes \<^verbatim>\<open>\s\<close>, \<^verbatim>\<open>\w\<close> and \<^verbatim>\<open>\d\<close> are those of \<^verbatim>\<open>re\<close> for \<^verbatim>\<open>str\<close> patterns on that range.
\<close>

datatype item = C char | R char char | S | W | D

datatype cls = In "item list" | NotIn "item list" | Dot

datatype regex =
    Atom cls
  | Bound
  | Then regex regex
  | Or regex regex
  | Opt regex
  | Star cls
  | Plus cls
  | LazyStar cls

text \<open>Membership in \<^verbatim>\<open>\s\<close>, \<^verbatim>\<open>\d\<close> and \<^verbatim>\<open>\w\<close>; \<^verbatim>\<open>.\<close> is every character but the newline.\<close>

definition is_space :: "char \<Rightarrow> bool" where
  "is_space x = (let n = (of_char x :: nat) in
     (9 \<le> n \<and> n \<le> 13) \<or> (28 \<le> n \<and> n \<le> 32) \<or> n = 0x85 \<or> n = 0xA0)"

definition is_digit :: "char \<Rightarrow> bool" where
  "is_digit x = (let n = (of_char x :: nat) in 0x30 \<le> n \<and> n \<le> 0x39)"

definition is_word :: "char \<Rightarrow> bool" where
  "is_word x = (let n = (of_char x :: nat) in
     (0x30 \<le> n \<and> n \<le> 0x39) \<or> (0x41 \<le> n \<and> n \<le> 0x5A) \<or> n = 0x5F \<or>
     (0x61 \<le> n \<and> n \<le> 0x7A) \<or> n = 0xAA \<or> n = 0xB2 \<or> n = 0xB3 \<or> n = 0xB5 \<or>
     n = 0xB9 \<or> n = 0xBA \<or> (0xBC \<le> n \<and> n \<le> 0xBE) \<or> (0xC0 \<le> n \<and> n \<le> 0xD6) \<or>
     (0xD8 \<le> n \<and> n \<le> 0xF6) \<or> (0xF8 \<le> n \<and> n \<le> 0xFF))"

fun in_item :: "item \<Rightarrow> char \<Rightarrow> bool" where
  "in_item (C c) x = (x = c)"
| "in_item (R a b) x = ((of_char a :: nat) \<le> of_char x \<and> (of_char x :: nat) \<le> of_char b)"
| "in_item S x = is_space x"
| "in_item W x = is_word x"
| "in_item D x = is_digit x"

fun in_cls :: "cls \<Rightarrow> char \<Rightarrow> bool" where
  "in_cls (In items) x = list_ex (\<lambda>i. in_item i x) items"
| "in_cls (NotIn items) x = (\<not> list_ex (\<lambda>i. in_item i x) items)"
| "in_cls Dot x = (x \<noteq> CHR 0x0A)"

text \<open>
  A position in the text: the character before it, which \<^verbatim>\<open>\b\<close> looks at, and the text from
  it on.
\<close>

type_synonym cursor = "char option \<times> string"

fun star :: "cls \<Rightarrow> char option \<Rightarrow> string \<Rightarrow> cursor list" where
  "star c p [] = [(p, [])]"
| "star c p (x # xs) = (if in_cls c x then star c (Some x) xs else []) @ [(p, x # xs)]"

fun lazy_star :: "cls \<Rightarrow> char option \<Rightarrow> string \<Rightarrow> cursor list" where
  "lazy_star c p [] = [(p, [])]"
| "lazy_star c p (x # xs) = (p, x # xs) # (if in_cls c x then lazy_star c (Some x) xs else [])"

definition boundary :: "char option \<Rightarrow> string \<Rightarrow> bool" where
  "boundary p s \<longleftrightarrow>
     (case p of None \<Rightarrow> False | Some a \<Rightarrow> is_word a) \<noteq> (case s of [] \<Rightarrow> False | x # _ \<Rightarrow> is_word x)"

fun run :: "regex \<Rightarrow> cursor \<Rightarrow> cursor list" where
  "run (Atom c) (p, []) = []"
| "run (Atom c) (p, x # xs) = (if in_cls c x then [(Some x, xs)] else [])"
| "run Bound (p, s) = (if boundary p s then [(p, s)] else [])"
| "run (Then a b) st = concat (map (run b) (run a st))"
| "run (Or a b) st = run a st @ run b st"
| "run (Opt a) st = run a st @ [st]"
| "run (Star c) (p, s) = star c p s"
| "run (Plus c) (p, []) = []"
| "run (Plus c) (p, x # xs) = (if in_cls c x then star c (Some x) xs else [])"
| "run (LazyStar c) (p, s) = lazy_star c p s"

text \<open>A character, a word and a sequence or an alternation of patterns.\<close>

definition lit :: "char \<Rightarrow> regex" where
  "lit c = Atom (In [C c])"

fun word :: "string \<Rightarrow> regex" where
  "word [] = Bound"
| "word [c] = lit c"
| "word (c # cs) = Then (lit c) (word cs)"

fun seq :: "regex list \<Rightarrow> regex" where
  "seq [] = Bound"
| "seq [r] = r"
| "seq (r # rs) = Then r (seq rs)"

fun alt :: "regex list \<Rightarrow> regex" where
  "alt [] = Bound"
| "alt [r] = r"
| "alt (r # rs) = Or r (alt rs)"

text \<open>
  The names of the groups of the combined pattern, and \<^verbatim>\<open>token_spec\<close>.  The combined pattern
  is the alternation of the named groups in this order, so a match is a match of the first
  group that matches at the position, and \<^verbatim>\<open>lastgroup\<close> is the name of that group.
\<close>

datatype group_name = Kind kind | SKIP | MISMATCH

definition token_spec :: "(group_name \<times> regex) list" where
  "token_spec =
    [(Kind INCLUDE, seq [lit (CHR ''#''), Star (In [S]), word ''include'', Star (In [S]), lit (CHR ''<''),
                         Plus (NotIn [C (CHR ''>'')]), lit (CHR ''>'')]),
     (Kind KEYWORD, seq [Bound,
                         alt (map word [''int'', ''float'', ''char'', ''double'', ''long'', ''short'', ''void'',
                                        ''return'', ''if'', ''else'', ''for'', ''while'', ''do'', ''printf'',
                                        ''scanf'', ''main'']),
                         Bound]),
     (Kind ID, seq [Bound, Atom (In [R (CHR ''a'') (CHR ''z''), R (CHR ''A'') (CHR ''Z''), C (CHR ''_'')]),
                    Star (In [W]), Bound]),
     (Kind NUM, seq [Bound, Plus (In [D]), Opt (Then (lit (CHR ''.'')) (Plus (In [D]))), Bound]),
     (Kind STRING, seq [lit (CHR 0x22), LazyStar Dot, lit (CHR 0x22)]),
     (Kind OP, Atom (In [C (CHR ''=''), C (CHR ''+''), C (CHR ''-''), C (CHR ''*''), C (CHR ''/''),
                         C (CHR ''<''), C (CHR ''>''), C (CHR ''!'')])),
     (Kind LPAREN, lit (CHR ''('')),
     (Kind RPAREN, lit (CHR '')'')),
     (Kind LBRACE, lit (CHR ''{'')),
     (Kind RBRACE, lit (CHR ''}'')),
     (Kind LBRACKET, lit (CHR ''['')),
     (Kind RBRACKET, lit (CHR '']'')),
     (Kind DELIM, Atom (In [C (CHR '';''), C (CHR '','')])),
     (SKIP, Plus (In [C (CHR '' ''), C (CHR 0x09), C (CHR 0x0A)])),
     (MISMATCH, Atom Dot)]"

fun first_match :: "(group_name \<times> regex) list \<Rightarrow> cursor \<Rightarrow> (group_name \<times> cursor) option" where
  "first_match [] st = None"
| "first_match ((name, r) # rest) st =
     (case run r st of [] \<Rightarrow> first_match rest st | st' # _ \<Rightarrow> Some (name, st'))"

text \<open>Every pattern of \<^verbatim>\<open>token_spec\<close> matches at least one character.\<close>

fun consuming :: "regex \<Rightarrow> bool" where
  "consuming (Atom c) = True"
| "consuming (Plus c) = True"
| "consuming (Then a b) = (consuming a \<or> consuming b)"
| "consuming (Or a b) = (consuming a \<and> consuming b)"
| "consuming _ = False"

lemma star_length: "(p', s') \<in> set (star c p s) \<Longrightarrow> length s' \<le> length s"
  by (induction c p s rule: star.induct) (auto split: if_splits)

lemma lazy_star_length: "(p', s') \<in> set (lazy_star c p s) \<Longrightarrow> length s' \<le> length s"
  by (induction c p s rule: lazy_star.induct) (auto split: if_splits)

lemma run_length: "(p', s') \<in> set (run r (p, s)) \<Longrightarrow> length s' \<le> length s"
proof (induction r arbitrary: p s p' s')
  case (Atom c)
  then show ?case by (cases s) (auto split: if_splits)
next
  case Bound
  then show ?case by (auto split: if_splits)
next
  case (Then a b)
  then obtain p1 s1 where "(p1, s1) \<in> set (run a (p, s))" "(p', s') \<in> set (run b (p1, s1))" by auto
  then show ?case using Then.IH(1)[of p1 s1 p s] Then.IH(2)[of p' s' p1 s1] by simp
next
  case (Or a b)
  then show ?case by auto
next
  case (Opt a)
  then show ?case by auto
next
  case (Star c)
  then show ?case using star_length by simp
next
  case (Plus c)
  then show ?case by (cases s) (auto split: if_splits dest: star_length)
next
  case (LazyStar c)
  then show ?case using lazy_star_length by simp
qed

lemma run_consuming:
  "consuming r \<Longrightarrow> (p', s') \<in> set (run r (p, s)) \<Longrightarrow> length s' < length s"
proof (induction r arbitrary: p s p' s')
  case (Atom c)
  then show ?case by (cases s) (auto split: if_splits)
next
  case (Then a b)
  from Then.prems(2) obtain p1 s1 where
    m: "(p1, s1) \<in> set (run a (p, s))" "(p', s') \<in> set (run b (p1, s1))" by auto
  show ?case
  proof (cases "consuming a")
    case True
    then show ?thesis using Then.IH(1)[OF True m(1)] run_length[OF m(2)] by simp
  next
    case False
    then have "consuming b" using Then.prems(1) by simp
    then show ?thesis using Then.IH(2)[OF _ m(2)] run_length[OF m(1)] by simp
  qed
next
  case (Or a b)
  then show ?case by auto
next
  case (Plus c)
  then show ?case by (cases s) (auto split: if_splits dest: star_length)
qed simp_all

lemma token_spec_consuming: "\<forall>(name, r) \<in> set token_spec. consuming r"
  by (simp add: token_spec_def lit_def)

lemma first_match_consumes_aux:
  "\<forall>(name, r) \<in> set spec. consuming r \<Longrightarrow> first_match spec (p, s) = Some (name, (p', s'))
   \<Longrightarrow> length s' < length s"
proof (induction spec)
  case Nil
  then show ?case by simp
next
  case (Cons a spec)
  obtain n r where a: "a = (n, r)" by (cases a)
  show ?case
  proof (cases "run r (p, s)")
    case Nil
    then show ?thesis using Cons a by simp
  next
    case (Cons st rest)
    then have "(p', s') \<in> set (run r (p, s))" using Cons.prems(2) a by simp
    moreover have "consuming r" using Cons.prems(1) a by simp
    ultimately show ?thesis by (rule run_consuming[rotated])
  qed
qed

lemma first_match_consumes:
  "first_match token_spec (p, s) = Some (name, (p', s')) \<Longrightarrow> length s' < length s"
  using first_match_consumes_aux[OF token_spec_consuming] .

text \<open>
  The loop over \<^verbatim>\<open>re.finditer\<close>.  Where no group matches, the search moves on by one
  character; behind a match it goes on at the end of the match.
\<close>

function tokenize_loop :: "char option \<Rightarrow> string \<Rightarrow> token list \<Rightarrow> exn + token list" where
  "tokenize_loop p s toks =
     (case first_match token_spec (p, s) of
        None \<Rightarrow> (case s of [] \<Rightarrow> Inr toks | x # xs \<Rightarrow> tokenize_loop (Some x) xs toks)
      | Some (name, (p', rest)) \<Rightarrow>
          (let val = take (length s - length rest) s in
           case name of
             SKIP \<Rightarrow> tokenize_loop p' rest toks
           | MISMATCH \<Rightarrow> Inl (RuntimeError (''Unexpected character: '' @ val))
           | Kind k \<Rightarrow> tokenize_loop p' rest (toks @ [Token k val])))"
  by pat_completeness auto
termination
  by (relation "measure (\<lambda>(p, s, toks). length s)") (auto dest: first_match_consumes)

declare tokenize_loop.simps [simp del]

definition tokenize :: "string \<Rightarrow> exn + token list" where
  "tokenize source = tokenize_loop None source []"

section \<open>The route\<close>

text \<open>
  The body of \<^verbatim>\<open>analyze\<close> from the text of the request on: the four stages in turn, and the
  handler that turns any exception into the response \<^verbatim>\<open>error\<close>.
\<close>

datatype response =
    Result "token list" "string list" "string list" "string list"
  | Error string

definition analyze_route :: "string \<Rightarrow> response" where
  "analyze_route source =
     (case tokenize source of
        Inl e \<Rightarrow> Error (str_exn e)
      | Inr toks \<Rightarrow>
          (case parse toks of
             (tree, syntax_errors) \<Rightarrow>
               (let semantic_errors = analyze tree in
                case generate tree of
                  Inl e \<Rightarrow> Error (str_exn e)
                | Inr intermediate_code \<Rightarrow> Result toks syntax_errors semantic_errors intermediate_code)))"

section \<open>Properties of the pipeline behind the lexer\<close>

text \<open>
  C1 (no exception crosses the parser, analyzer and generator on a tree the parser built).
  The tokens of \<^verbatim>\<open>int x = 5 + ;\<close> are parsed without a diagnostic into a declaration and an
  assignment whose right operand is \<^verbatim>\<open>None\<close>; \<^verbatim>\<open>generate\<close> on that tree raises
  \<^verbatim>\<open>TypeError\<close> in \<^verbatim>\<open>handle_expr\<close>.
\<close>

theorem partial_expression_raises:
  "parse [Token KEYWORD ''int'', Token ID ''x'', Token OP ''='', Token NUM ''5'', Token OP ''+'',
          Token DELIM '';'']
     = ([Declare ''int'' ''x'', AssignExpr ''int'' ''x'' (BinOp ''+'' (Some (Leaf ''5'')) None)], [])
   \<and> generate [Declare ''int'' ''x'', AssignExpr ''int'' ''x'' (BinOp ''+'' (Some (Leaf ''5'')) None)]
     = Inl (TypeError ([CHR 0x27] @ ''NoneType'' @ [CHR 0x27] @ '' object is not subscriptable''))"
  by code_simp

lemma parse_loop_iterations:
  "\<exists>n. n \<le> remaining p \<and>
       parse_loop p = ((\<lambda>q. parse_step (tokens q ! pos q) q) ^^ n) p \<and>
       \<not> pos (parse_loop p) < length (tokens (parse_loop p))"
proof (induction p rule: parse_loop.induct)
  case (1 p)
  define f where "f = (\<lambda>q. parse_step (tokens q ! pos q) q)"
  show ?case
  proof (cases "pos p < length (tokens p)")
    case False
    then have "parse_loop p = p" by (subst parse_loop.simps) simp
    then have "0 \<le> remaining p \<and> parse_loop p = (f ^^ 0) p \<and>
        \<not> pos (parse_loop p) < length (tokens (parse_loop p))"
      using False by simp
    then show ?thesis unfolding f_def by blast
  next
    case True
    have eq: "parse_loop p = parse_loop (f p)"
      using True unfolding f_def by (subst parse_loop.simps) simp
    from 1[OF True] obtain n where n: "n \<le> remaining (f p)"
      "parse_loop (f p) = (f ^^ n) (f p)"
      "\<not> pos (parse_loop (f p)) < length (tokens (parse_loop (f p)))"
      unfolding f_def by blast
    have "remaining (f p) < remaining p"
      using parse_step_shape[OF True] True unfolding f_def by (simp add: remaining_less grows_def)
    then have "Suc n \<le> remaining p" using n(1) by simp
    moreover have "parse_loop p = (f ^^ Suc n) p"
      using eq n(2) by (simp only: funpow_Suc_right o_apply)
    moreover have "\<not> pos (parse_loop p) < length (tokens (parse_loop p))" using eq n(3) by simp
    ultimately show ?thesis unfolding f_def by blast
  qed
qed

lemma function_body_iterations:
  "\<exists>n. n \<le> remaining p \<and>
       function_body p = ((\<lambda>q. body_step (the (current q)) q) ^^ n) p \<and>
       (current (function_body p) = None \<or> tok_type (the (current (function_body p))) = RBRACE)"
proof (induction p rule: function_body.induct)
  case (1 p)
  define f where "f = (\<lambda>q. body_step (the (current q)) q)"
  show ?case
  proof (cases "\<exists>token. current p = Some token \<and> tok_type token \<noteq> RBRACE")
    case False
    then have stop: "current p = None \<or> tok_type (the (current p)) = RBRACE"
      by (cases "current p") auto
    have "function_body p = p"
      using False by (subst function_body.simps) (auto split: option.splits)
    then have "0 \<le> remaining p \<and> function_body p = (f ^^ 0) p \<and>
        (current (function_body p) = None \<or> tok_type (the (current (function_body p))) = RBRACE)"
      using stop by simp
    then show ?thesis unfolding f_def by blast
  next
    case True
    then obtain token where t: "current p = Some token" "tok_type token \<noteq> RBRACE" by blast
    have fp: "f p = body_step token p" using t by (simp add: f_def)
    have eq: "function_body p = function_body (f p)"
      using t fp by (subst function_body.simps) simp
    from 1[OF t] obtain n where n: "n \<le> remaining (f p)"
      "function_body (f p) = (f ^^ n) (f p)"
      "current (function_body (f p)) = None \<or> tok_type (the (current (function_body (f p)))) = RBRACE"
      unfolding fp[symmetric] unfolding f_def by blast
    have "remaining (f p) < remaining p"
      using body_step_progress[OF t(1)] t(1) fp by (simp add: remaining_less current_Some_pos)
    then have "Suc n \<le> remaining p" using n(1) by simp
    moreover have "function_body p = (f ^^ Suc n) p"
      using eq n(2) by (simp only: funpow_Suc_right o_apply)
    moreover have "current (function_body p) = None \<or> tok_type (the (current (function_body p))) = RBRACE"
      using eq n(3) by simp
    ultimately show ?thesis unfolding f_def by blast
  qed
qed

text \<open>
  C5 (\<^verbatim>\<open>Parser.parse\<close> terminates on every token sequence).  One iteration of the driver
  loop, entered with the cursor inside the token list, leaves the token list alone and moves
  the cursor strictly right; so does one iteration of the function-body loop.  Hence the
  driver loop is its body iterated at most as many times as tokens remain, and it stops with
  the cursor at or behind the end; the function-body loop likewise stops, at the end of the
  tokens or at a closing brace.
\<close>

theorem parse_terminates:
  "(pos p < length (tokens p) \<longrightarrow>
      tokens (parse_step (tokens p ! pos p) p) = tokens p \<and>
      pos p < pos (parse_step (tokens p ! pos p) p)) \<and>
   (current p = Some t \<and> tok_type t \<noteq> RBRACE \<longrightarrow>
      tokens (body_step t p) = tokens p \<and> pos p < pos (body_step t p)) \<and>
   (\<exists>n. n \<le> length (tokens p) - pos p \<and>
      parse_loop p = ((\<lambda>q. parse_step (tokens q ! pos q) q) ^^ n) p \<and>
      \<not> pos (parse_loop p) < length (tokens (parse_loop p))) \<and>
   (\<exists>n. n \<le> length (tokens p) - pos p \<and>
      function_body p = ((\<lambda>q. body_step (the (current q)) q) ^^ n) p \<and>
      (current (function_body p) = None \<or> tok_type (the (current (function_body p))) = RBRACE))"
proof (intro conjI impI)
  assume "pos p < length (tokens p)"
  then show "tokens (parse_step (tokens p ! pos p) p) = tokens p"
    and "pos p < pos (parse_step (tokens p ! pos p) p)"
    using parse_step_shape[of p] by (simp_all add: grows_def)
next
  assume "current p = Some t \<and> tok_type t \<noteq> RBRACE"
  then show "tokens (body_step t p) = tokens p" and "pos p < pos (body_step t p)"
    using body_step_progress[of p t] by simp_all
next
  show "\<exists>n. n \<le> length (tokens p) - pos p \<and>
      parse_loop p = ((\<lambda>q. parse_step (tokens q ! pos q) q) ^^ n) p \<and>
      \<not> pos (parse_loop p) < length (tokens (parse_loop p))"
    using parse_loop_iterations[of p] by (simp add: remaining_def)
next
  show "\<exists>n. n \<le> length (tokens p) - pos p \<and>
      function_body p = ((\<lambda>q. body_step (the (current q)) q) ^^ n) p \<and>
      (current (function_body p) = None \<or> tok_type (the (current (function_body p))) = RBRACE)"
    using function_body_iterations[of p] by (simp add: remaining_def)
qed


theorem parse_terminates_witness:
  "pos (Parser [Token OP ''+'']) < length (tokens (Parser [Token OP ''+''])) \<and>
   pos (Parser [Token OP ''+''])
     < pos (parse_step (tokens (Parser [Token OP ''+'']) ! pos (Parser [Token OP ''+'']))
              (Parser [Token OP ''+''])) \<and>
   current (Parser [Token OP ''+'']) = Some (Token OP ''+'') \<and>
   tok_type (Token OP ''+'') \<noteq> RBRACE \<and>
   pos (Parser [Token OP ''+'']) < pos (body_step (Token OP ''+'') (Parser [Token OP ''+''])) \<and>
   parse [Token OP ''+''] = ([], [''Syntax Error: Invalid declaration''])"
proof -
  have h1: "pos (Parser [Token OP ''+'']) < length (tokens (Parser [Token OP ''+'']))"
    by (simp add: Parser_def)
  have h2: "current (Parser [Token OP ''+'']) = Some (Token OP ''+'') \<and>
      tok_type (Token OP ''+'') \<noteq> RBRACE"
    by (simp add: Parser_def current_def Token_def)
  have h3: "parse [Token OP ''+''] = ([], [''Syntax Error: Invalid declaration''])"
    by code_simp
  show ?thesis
    using h1 h2 h3 parse_terminates[of "Parser [Token OP ''+'']" "Token OP ''+''"] by blast
qed

lemma undeclared_not_redeclared: "undeclared n \<noteq> redeclared m"
  by (simp add: undeclared_def redeclared_def)

lemma analyze_stmt_declares:
  "declares (Some x) n \<Longrightarrow> n \<in> symbols (analyze_stmt x s)"
  by (cases x) auto

lemma analyze_stmt_errors:
  assumes "\<forall>n. declares prev n \<longrightarrow> n \<in> symbols s" "assigns_follow prev (x # rest)"
  shows "set (sem_errors (analyze_stmt x s)) \<subseteq> set (sem_errors s) \<union> range redeclared"
  using assms by (cases x) auto

lemma assigns_follow_tail: "assigns_follow prev (x # rest) \<Longrightarrow> assigns_follow (Some x) rest"
  by (cases x) auto

lemma analyze_loop_follow:
  assumes "assigns_follow prev tree" "\<forall>n. declares prev n \<longrightarrow> n \<in> symbols s"
  shows "set (sem_errors (analyze_loop tree s)) \<subseteq> set (sem_errors s) \<union> range redeclared"
  using assms
proof (induction tree arbitrary: prev s)
  case Nil
  then show ?case by simp
next
  case (Cons x rest)
  have a: "set (sem_errors (analyze_stmt x s)) \<subseteq> set (sem_errors s) \<union> range redeclared"
    using analyze_stmt_errors[OF Cons.prems(2) Cons.prems(1)] .
  have b: "set (sem_errors (analyze_loop rest (analyze_stmt x s)))
      \<subseteq> set (sem_errors (analyze_stmt x s)) \<union> range redeclared"
    by (rule Cons.IH[of "Some x"]) (auto intro: assigns_follow_tail[OF Cons.prems(1)] analyze_stmt_declares)
  show ?case using a b by auto
qed

lemma parse_follow: "assigns_follow None (fst (parse toks))"
  using grows_parse_loop[of "Parser toks"] by (auto simp: parse_def grows_def Parser_def Let_def)

text \<open>
  C10 (the analyzer never reports an undeclared variable on a tree the parser built).  In the
  tree of any token sequence every \<^verbatim>\<open>assign_expr\<close> node stands directly behind a
  \<^verbatim>\<open>declare\<close> or \<^verbatim>\<open>declare_array\<close> node of the same name; every message of
  \<^verbatim>\<open>analyze\<close> on that tree is a redeclaration message, and none is the message of the
  undeclared-variable branch.
\<close>

theorem no_undeclared_after_parse:
  "assigns_follow None (fst (parse toks)) \<and>
   set (analyze (fst (parse toks))) \<subseteq> range redeclared \<and>
   undeclared n \<notin> set (analyze (fst (parse toks)))"
proof -
  have a: "assigns_follow None (fst (parse toks))" by (rule parse_follow)
  have b: "set (analyze (fst (parse toks))) \<subseteq> range redeclared"
    using analyze_loop_follow[OF a, of SemanticAnalyzer] by (simp add: analyze_def SemanticAnalyzer_def)
  have c: "undeclared n \<notin> set (analyze (fst (parse toks)))"
    using b undeclared_not_redeclared by blast
  show ?thesis using a b c by blast
qed

theorem no_undeclared_after_parse_witness:
  "analyze (fst (parse [Token KEYWORD ''int'', Token ID ''x'', Token OP ''='', Token NUM ''1'',
      Token DELIM '';'', Token KEYWORD ''int'', Token ID ''x'', Token OP ''='', Token NUM ''2'',
      Token DELIM '';''])) = [redeclared ''x''] \<and>
   undeclared ''x'' \<notin> set (analyze (fst (parse [Token KEYWORD ''int'', Token ID ''x'', Token OP ''='',
      Token NUM ''1'', Token DELIM '';'', Token KEYWORD ''int'', Token ID ''x'', Token OP ''='',
      Token NUM ''2'', Token DELIM '';''])))"
proof -
  have "analyze (fst (parse [Token KEYWORD ''int'', Token ID ''x'', Token OP ''='', Token NUM ''1'',
      Token DELIM '';'', Token KEYWORD ''int'', Token ID ''x'', Token OP ''='', Token NUM ''2'',
      Token DELIM '';''])) = [redeclared ''x'']"
    by code_simp
  then show ?thesis
    using no_undeclared_after_parse[of "[Token KEYWORD ''int'', Token ID ''x'', Token OP ''='',
      Token NUM ''1'', Token DELIM '';'', Token KEYWORD ''int'', Token ID ''x'', Token OP ''='',
      Token NUM ''2'', Token DELIM '';'']" "''x''"]
    by blast
qed

subsection \<open>The initialiser of a declaration\<close>










subsection \<open>The printf statement\<close>

text \<open>The token at index \<open>i\<close> exists and has the type \<open>k\<close>.\<close>

definition kind_at :: "parser \<Rightarrow> nat \<Rightarrow> kind \<Rightarrow> bool" where
  "kind_at p i k \<longleftrightarrow> i < length (tokens p) \<and> tok_type (tokens p ! i) = k"

text \<open>
  C7 (a malformed printf).  With the cursor on the keyword \<^verbatim>\<open>printf\<close>, \<^verbatim>\<open>printf_statement\<close>
  looks at the four tokens behind it for \<^verbatim>\<open>(\<close>, a string, \<^verbatim>\<open>)\<close> and a delimiter.  At the first
  one that is missing it stops behind the tokens matched so far, leaves the tree as it was and
  appends one message: \<^verbatim>\<open>Syntax Error: Expected '('\<close>, \<^verbatim>\<open>Syntax Error: Expected string in printf\<close>,
  \<^verbatim>\<open>Syntax Error: Expected ')' in printf\<close> or \<^verbatim>\<open>Syntax Error: Missing semicolon after printf\<close>.
  Only when all four are there it appends the \<^verbatim>\<open>printf\<close> node, with the text of the string
  token, and no message.
\<close>

theorem printf_statement_outcome:
  assumes "current p = Some t" and "tok_type t = KEYWORD" and "tok_value t = ''printf''"
  shows "printf_statement p =
     (if \<not> kind_at p (pos p + 1) LPAREN
      then p\<lparr>pos := pos p + 1,
             errors := errors p @ [''Syntax Error: Expected '' @ [CHR 0x27, CHR ''('', CHR 0x27]]\<rparr>
      else if \<not> kind_at p (pos p + 2) STRING
      then p\<lparr>pos := pos p + 2, errors := errors p @ [''Syntax Error: Expected string in printf'']\<rparr>
      else if \<not> kind_at p (pos p + 3) RPAREN
      then p\<lparr>pos := pos p + 3,
             errors := errors p @ [''Syntax Error: Expected '' @ [CHR 0x27, CHR '')'', CHR 0x27] @ '' in printf'']\<rparr>
      else if \<not> kind_at p (pos p + 4) DELIM
      then p\<lparr>pos := pos p + 4, errors := errors p @ [''Syntax Error: Missing semicolon after printf'']\<rparr>
      else p\<lparr>pos := pos p + 5, ast := ast p @ [Printf (tok_value (tokens p ! (pos p + 2)))]\<rparr>)"
  using assms
  by (cases p) (auto simp: printf_statement_def match_def current_def kind_at_def eval_nat_numeral split: if_splits)

text \<open>A printf whose closing parenthesis is missing: \<^verbatim>\<open>printf ( s ;\<close>.\<close>

theorem printf_statement_outcome_witness:
  "current (Parser [Token KEYWORD ''printf'', Token LPAREN ''('', Token STRING ''s'', Token DELIM '';''])
     = Some (Token KEYWORD ''printf'') \<and>
   printf_statement (Parser [Token KEYWORD ''printf'', Token LPAREN ''('', Token STRING ''s'', Token DELIM '';''])
     = \<lparr>tokens = [Token KEYWORD ''printf'', Token LPAREN ''('', Token STRING ''s'', Token DELIM '';''],
        pos = 3, ast = [],
        errors = [''Syntax Error: Expected '' @ [CHR 0x27, CHR '')'', CHR 0x27] @ '' in printf'']\<rparr>"
  using printf_statement_outcome[of
      "Parser [Token KEYWORD ''printf'', Token LPAREN ''('', Token STRING ''s'', Token DELIM '';'']"
      "Token KEYWORD ''printf''"]
  by (simp add: Parser_def current_def Token_def kind_at_def)

text \<open>
  A lone \<^verbatim>\<open>printf\<close> appends no node and records \<^verbatim>\<open>Syntax Error: Expected '('\<close>; the string
  \<^verbatim>\<open>Expected '('\<close> itself is not among the errors.
\<close>

theorem printf_literal_counterexample:
  "ast (printf_statement (Parser [Token KEYWORD ''printf''])) = [] \<and>
   errors (printf_statement (Parser [Token KEYWORD ''printf'']))
     = [''Syntax Error: Expected '' @ [CHR 0x27, CHR ''('', CHR 0x27]] \<and>
   ''Expected '' @ [CHR 0x27, CHR ''('', CHR 0x27]
     \<notin> set (errors (printf_statement (Parser [Token KEYWORD ''printf''])))"
  by code_simp

subsection \<open>Temporaries\<close>

text \<open>
  The left-hand side of an emitted line: the text before its first blank.  The decimal
  rendering of a number has no blank and determines the number.
\<close>

definition target :: "string \<Rightarrow> string" where
  "target line = takeWhile (\<lambda>c. c \<noteq> CHR '' '') line"

definition digits_value :: "string \<Rightarrow> nat" where
  "digits_value s = foldl (\<lambda>a c. 10 * a + (of_char c - 48)) 0 s"

lemma digits_value_str_nat: "digits_value (str_nat n) = n"
proof (induction n rule: str_nat.induct)
  case (1 n)
  show ?case
  proof (cases "n < 10")
    case True
    then show ?thesis by (subst str_nat.simps) (simp add: digits_value_def)
  next
    case False
    have "digits_value (str_nat n) = 10 * digits_value (str_nat (n div 10)) + n mod 10"
      using False by (subst str_nat.simps) (simp add: digits_value_def)
    then show ?thesis using 1[OF False] by simp
  qed
qed

lemma str_nat_inj: "str_nat m = str_nat n \<longleftrightarrow> m = n"
  by (metis digits_value_str_nat)

lemma digit_not_space: "d < 10 \<Longrightarrow> char_of (48 + d) \<noteq> CHR '' ''" for d :: nat
proof
  assume d: "d < 10" and "char_of (48 + d) = CHR '' ''"
  then have "of_char (char_of (48 + d) :: char) = (of_char (CHR '' '') :: nat)" by simp
  then show False using d by simp
qed

lemma str_nat_no_space: "CHR '' '' \<notin> set (str_nat n)"
proof (induction n rule: str_nat.induct)
  case (1 n)
  show ?case
  proof (cases "n < 10")
    case True
    then show ?thesis using digit_not_space[of n] by (subst str_nat.simps) auto
  next
    case False
    then show ?thesis using 1[OF False] digit_not_space[of "n mod 10"]
      by (subst str_nat.simps) auto
  qed
qed

lemma target_temp: "target ((''t'' @ str_nat k) @ '' = '' @ rest) = ''t'' @ str_nat k"
proof -
  have "\<forall>c \<in> set (''t'' @ str_nat k). c \<noteq> CHR '' ''" using str_nat_no_space[of k] by auto
  then show ?thesis unfolding target_def by (simp add: takeWhile_append)
qed

lemma new_temp_eq:
  "new_temp g = (''t'' @ str_nat (temp_count g + 1), g\<lparr>temp_count := temp_count g + 1\<rparr>)"
  by (simp add: new_temp_def Let_def)

lemma upt_split: "a \<le> b \<Longrightarrow> b \<le> c \<Longrightarrow> [a..<c] = [a..<b] @ [b..<c]" for a b c :: nat
  by (metis le_Suc_ex upt_add_eq_append)

lemma handle_expr_temps:
  "handle_expr e g = Inr (r, g') \<Longrightarrow>
     temp_count g \<le> temp_count g' \<and>
     (\<exists>ls. code g' = code g @ ls \<and>
           map target ls = map (\<lambda>i. ''t'' @ str_nat i) [Suc (temp_count g) ..< Suc (temp_count g')])"
proof (induction e g arbitrary: r g' rule: handle_expr.induct)
  case (1 g)
  then show ?case by simp
next
  case (2 v g)
  then show ?case by auto
next
  case (3 opr left right g)
  from "3.prems" obtain l g1 where h1: "handle_expr left g = Inr (l, g1)"
    by (auto split: sum.splits)
  from "3.prems" h1 obtain r2 g2 where h2: "handle_expr right g1 = Inr (r2, g2)"
    by (auto split: sum.splits)
  from "3.prems" h1 h2 have g': "g' = g2\<lparr>temp_count := temp_count g2 + 1,
        code := code g2 @ [(''t'' @ str_nat (temp_count g2 + 1)) @ '' = '' @ l @ '' '' @ opr @ '' '' @ r2]\<rparr>"
    by (auto simp add: new_temp_eq)
  from "3.IH"(1)[OF h1] obtain ls1 where a1: "temp_count g \<le> temp_count g1"
    "code g1 = code g @ ls1"
    "map target ls1 = map (\<lambda>i. ''t'' @ str_nat i) [Suc (temp_count g) ..< Suc (temp_count g1)]"
    by blast
  from "3.IH"(2)[OF h1 refl h2] obtain ls2 where a2: "temp_count g1 \<le> temp_count g2"
    "code g2 = code g1 @ ls2"
    "map target ls2 = map (\<lambda>i. ''t'' @ str_nat i) [Suc (temp_count g1) ..< Suc (temp_count g2)]"
    by blast
  let ?line = "(''t'' @ str_nat (temp_count g2 + 1)) @ '' = '' @ l @ '' '' @ opr @ '' '' @ r2"
  have u: "[Suc (temp_count g) ..< Suc (Suc (temp_count g2))]
     = [Suc (temp_count g) ..< Suc (temp_count g1)] @ [Suc (temp_count g1) ..< Suc (temp_count g2)]
       @ [Suc (temp_count g2)]"
  proof -
    have "[Suc (temp_count g) ..< Suc (Suc (temp_count g2))]
       = [Suc (temp_count g) ..< Suc (temp_count g2)] @ [Suc (temp_count g2)]"
      using a1(1) a2(1) by (simp del: upt_Suc add: upt_Suc_append)
    also have "[Suc (temp_count g) ..< Suc (temp_count g2)]
       = [Suc (temp_count g) ..< Suc (temp_count g1)] @ [Suc (temp_count g1) ..< Suc (temp_count g2)]"
      using a1(1) a2(1) by (intro upt_split) simp_all
    finally show ?thesis by (simp del: upt_Suc)
  qed
  have tc: "temp_count g' = Suc (temp_count g2)" using g' by simp
  have "code g' = code g @ (ls1 @ ls2 @ [?line])" using g' a1 a2 by simp
  moreover have "map target (ls1 @ ls2 @ [?line])
     = map (\<lambda>i. ''t'' @ str_nat i) [Suc (temp_count g) ..< Suc (temp_count g')]"
  proof -
    have "target ?line = ''t'' @ str_nat (Suc (temp_count g2))"
      using target_temp[of "temp_count g2 + 1"] by simp
    then have "map target (ls1 @ ls2 @ [?line])
       = map (\<lambda>i. ''t'' @ str_nat i)
           ([Suc (temp_count g) ..< Suc (temp_count g1)] @ [Suc (temp_count g1) ..< Suc (temp_count g2)]
             @ [Suc (temp_count g2)])"
      using a1(3) a2(3) by (simp del: upt_Suc)
    then show ?thesis by (simp only: u tc)
  qed
  moreover have "temp_count g \<le> temp_count g'" using a1 a2 g' by simp
  ultimately show ?case by blast
qed

text \<open>
  The lines of a run of \<^verbatim>\<open>generate\<close>, statement by statement: the lines that \<^verbatim>\<open>handle_expr\<close>
  emitted for the statement, and behind them the line of the statement itself.  Only an
  \<^verbatim>\<open>assign_expr\<close> has lines of \<^verbatim>\<open>handle_expr\<close>, and its own line starts with its variable and
  \<^verbatim>\<open> = \<close>.
\<close>

fun emits :: "stmt \<Rightarrow> string list \<times> string \<Rightarrow> bool" where
  "emits (Include v) (ls, l) = (ls = [] \<and> l = v)"
| "emits (Declare typ name) (ls, l) = (ls = [] \<and> l = typ @ '' '' @ name)"
| "emits (DeclareArray typ name sz) (ls, l) = (ls = [] \<and> l = typ @ '' '' @ name @ ''['' @ sz @ '']'')"
| "emits (AssignExpr typ name e) (ls, l) = (take (length name + 3) l = name @ '' = '')"
| "emits (Printf string_value) (ls, l) = (ls = [] \<and> l = ''print '' @ string_value)"

definition lines :: "(string list \<times> string) list \<Rightarrow> string list" where
  "lines blocks = concat (map (\<lambda>(ls, l). ls @ [l]) blocks)"

definition temp_lines :: "(string list \<times> string) list \<Rightarrow> string list" where
  "temp_lines blocks = concat (map fst blocks)"

lemma generate_stmt_block:
  assumes "generate_stmt s g = Inr g'"
  shows "temp_count g \<le> temp_count g' \<and>
     (\<exists>ls l. code g' = code g @ ls @ [l] \<and> emits s (ls, l) \<and>
        map target ls = map (\<lambda>i. ''t'' @ str_nat i) [Suc (temp_count g) ..< Suc (temp_count g')])"
proof (cases s)
  case (AssignExpr ty name e)
  from assms AssignExpr obtain r g1 where h: "handle_expr (Some e) g = Inr (r, g1)"
    and g': "g' = g1\<lparr>code := code g1 @ [name @ '' = '' @ r]\<rparr>"
    by (auto split: sum.splits)
  from handle_expr_temps[OF h] obtain ls where le: "temp_count g \<le> temp_count g1"
    and c: "code g1 = code g @ ls"
    and t: "map target ls = map (\<lambda>i. ''t'' @ str_nat i) [Suc (temp_count g) ..< Suc (temp_count g1)]"
    by blast
  have "code g' = code g @ ls @ [name @ '' = '' @ r]" using g' c by simp
  moreover have "emits s (ls, name @ '' = '' @ r)" using AssignExpr by simp
  moreover have "temp_count g' = temp_count g1" using g' by simp
  ultimately show ?thesis using le t by (metis (no_types, lifting))
next
  case (Include v)
  then have "code g' = code g @ [] @ [v]" "emits s ([], v)" "temp_count g' = temp_count g"
    using assms by auto
  then show ?thesis by (metis (no_types, lifting) le_refl list.map(1) upt_rec less_irrefl)
next
  case (Declare ty name)
  then have "code g' = code g @ [] @ [ty @ '' '' @ name]" "emits s ([], ty @ '' '' @ name)"
    "temp_count g' = temp_count g"
    using assms by auto
  then show ?thesis by (metis (no_types, lifting) le_refl list.map(1) upt_rec less_irrefl)
next
  case (DeclareArray ty name sz)
  then have "code g' = code g @ [] @ [ty @ '' '' @ name @ ''['' @ sz @ '']'']"
    "emits s ([], ty @ '' '' @ name @ ''['' @ sz @ '']'')" "temp_count g' = temp_count g"
    using assms by auto
  then show ?thesis by (metis (no_types, lifting) le_refl list.map(1) upt_rec less_irrefl)
next
  case (Printf sv)
  then have "code g' = code g @ [] @ [''print '' @ sv]" "emits s ([], ''print '' @ sv)"
    "temp_count g' = temp_count g"
    using assms by auto
  then show ?thesis by (metis (no_types, lifting) le_refl list.map(1) upt_rec less_irrefl)
qed

lemma generate_loop_blocks:
  "generate_loop tree g = Inr g' \<Longrightarrow>
     temp_count g \<le> temp_count g' \<and>
     (\<exists>blocks. code g' = code g @ lines blocks \<and> list_all2 emits tree blocks \<and>
        map target (temp_lines blocks)
          = map (\<lambda>i. ''t'' @ str_nat i) [Suc (temp_count g) ..< Suc (temp_count g')])"
proof (induction tree arbitrary: g)
  case Nil
  then have "g' = g" by simp
  then have "code g' = code g @ lines []" "list_all2 emits [] []"
    "map target (temp_lines []) = map (\<lambda>i. ''t'' @ str_nat i) [Suc (temp_count g) ..< Suc (temp_count g')]"
    by (simp_all add: lines_def temp_lines_def)
  then show ?case using \<open>g' = g\<close> by blast
next
  case (Cons s rest)
  then obtain g1 where h: "generate_stmt s g = Inr g1" and r: "generate_loop rest g1 = Inr g'"
    by (auto split: sum.splits)
  from generate_stmt_block[OF h] obtain ls l where le1: "temp_count g \<le> temp_count g1"
    and c1: "code g1 = code g @ ls @ [l]" and e1: "emits s (ls, l)"
    and t1: "map target ls = map (\<lambda>i. ''t'' @ str_nat i) [Suc (temp_count g) ..< Suc (temp_count g1)]"
    by blast
  from Cons.IH[OF r] obtain blocks where le2: "temp_count g1 \<le> temp_count g'"
    and c2: "code g' = code g1 @ lines blocks" and e2: "list_all2 emits rest blocks"
    and t2: "map target (temp_lines blocks)
          = map (\<lambda>i. ''t'' @ str_nat i) [Suc (temp_count g1) ..< Suc (temp_count g')]"
    by blast
  have u: "[Suc (temp_count g) ..< Suc (temp_count g')]
      = [Suc (temp_count g) ..< Suc (temp_count g1)] @ [Suc (temp_count g1) ..< Suc (temp_count g')]"
    using le1 le2 by (intro upt_split) simp_all
  have "code g' = code g @ lines ((ls, l) # blocks)" using c1 c2 by (simp add: lines_def)
  moreover have "list_all2 emits (s # rest) ((ls, l) # blocks)" using e1 e2 by simp
  moreover have "map target (temp_lines ((ls, l) # blocks))
      = map (\<lambda>i. ''t'' @ str_nat i) [Suc (temp_count g) ..< Suc (temp_count g')]"
    unfolding u using t1 t2 by (simp add: temp_lines_def del: upt_Suc)
  moreover have "temp_count g \<le> temp_count g'" using le1 le2 by simp
  ultimately show ?case by blast
qed

lemma temp_names_distinct: "distinct (map (\<lambda>i. ''t'' @ str_nat i) [a ..< b])"
  by (simp add: distinct_map inj_on_def str_nat_inj)

lemma generate_blocks:
  assumes "generate tree = Inr c"
  shows "\<exists>blocks n. c = lines blocks \<and> list_all2 emits tree blocks \<and>
           map target (temp_lines blocks) = map (\<lambda>i. ''t'' @ str_nat i) [1 ..< Suc n] \<and>
           distinct (map target (temp_lines blocks))"
proof -
  from assms obtain g' where h: "generate_loop tree ICG = Inr g'" and c: "c = code g'"
    by (auto simp: generate_def split: sum.splits)
  from generate_loop_blocks[OF h] obtain blocks where
    b: "code g' = code ICG @ lines blocks" "list_all2 emits tree blocks"
       "map target (temp_lines blocks)
          = map (\<lambda>i. ''t'' @ str_nat i) [Suc (temp_count ICG) ..< Suc (temp_count g')]"
    by blast
  have t: "map target (temp_lines blocks) = map (\<lambda>i. ''t'' @ str_nat i) [1 ..< Suc (temp_count g')]"
    using b(3) by (simp add: ICG_def del: upt_Suc)
  have "c = lines blocks" using b(1) c by (simp add: ICG_def)
  moreover have "distinct (map target (temp_lines blocks))" unfolding t by (rule temp_names_distinct)
  ultimately show ?thesis using b(2) t by blast
qed

text \<open>
  C6 (temporaries are numbered upwards).  The counter of a fresh generator is 0 and the first
  name it hands out is \<^verbatim>\<open>t1\<close>.  \<^verbatim>\<open>new_temp\<close> adds one to the counter and returns \<^verbatim>\<open>t\<close> followed by
  the decimal rendering of the new value; two such names are equal only for equal counter
  values.  \<^verbatim>\<open>handle_expr\<close>, when it returns, has not lowered the counter, and the lines it
  emitted define, in order, exactly the temporaries numbered from the old counter value plus
  one up to the new counter value.  The loop of \<^verbatim>\<open>generate\<close> does the same over all its
  statements: its output is, statement by statement, the lines of \<^verbatim>\<open>handle_expr\<close> and the
  statement's own line, and the lines of \<^verbatim>\<open>handle_expr\<close> of the whole run define, in order,
  the temporaries from the old counter value plus one to the new one.  So the lines of
  temporaries in the result of \<^verbatim>\<open>generate\<close> define \<^verbatim>\<open>t1\<close>, \<^verbatim>\<open>t2\<close>, ... up to some number, in this
  order and each once.
\<close>

theorem temporaries_increasing:
  "temp_count ICG = 0 \<and>
   fst (new_temp ICG) = ''t1'' \<and>
   new_temp g = (''t'' @ str_nat (temp_count g + 1), g\<lparr>temp_count := temp_count g + 1\<rparr>) \<and>
   ((''t'' @ str_nat m = ''t'' @ str_nat n) = (m = n)) \<and>
   (handle_expr e g = Inr (r, g') \<longrightarrow>
      temp_count g \<le> temp_count g' \<and>
      (\<exists>ls. code g' = code g @ ls \<and>
            map target ls = map (\<lambda>i. ''t'' @ str_nat i) [Suc (temp_count g) ..< Suc (temp_count g')])) \<and>
   (generate_loop tree g = Inr g'' \<longrightarrow>
      temp_count g \<le> temp_count g'' \<and>
      (\<exists>blocks. code g'' = code g @ lines blocks \<and> list_all2 emits tree blocks \<and>
         map target (temp_lines blocks)
           = map (\<lambda>i. ''t'' @ str_nat i) [Suc (temp_count g) ..< Suc (temp_count g'')])) \<and>
   (generate tree = Inr c \<longrightarrow>
      (\<exists>blocks k. c = lines blocks \<and> list_all2 emits tree blocks \<and>
         map target (temp_lines blocks) = map (\<lambda>i. ''t'' @ str_nat i) [1 ..< Suc k] \<and>
         distinct (map target (temp_lines blocks))))"
proof -
  have "fst (new_temp ICG) = ''t1''" by code_simp
  moreover have "temp_count ICG = 0" by (simp add: ICG_def)
  ultimately show ?thesis
    using new_temp_eq[of g] str_nat_inj[of m n] handle_expr_temps[of e g r g']
      generate_loop_blocks[of tree g g''] generate_blocks[of tree c]
    by simp
qed

text \<open>Lowering \<^verbatim>\<open>2 + 3 * 4\<close> with a fresh generator, alone and as the initialiser of \<^verbatim>\<open>int x\<close>.\<close>

theorem temporaries_increasing_witness:
  "handle_expr (Some (BinOp ''+'' (Some (Leaf ''2''))
                  (Some (BinOp ''*'' (Some (Leaf ''3'')) (Some (Leaf ''4'')))))) ICG
     = Inr (''t2'', \<lparr>code = [''t1 = 3 * 4'', ''t2 = 2 + t1''], temp_count = 2\<rparr>) \<and>
   generate_loop [Declare ''int'' ''x'',
                  AssignExpr ''int'' ''x'' (BinOp ''+'' (Some (Leaf ''2''))
                     (Some (BinOp ''*'' (Some (Leaf ''3'')) (Some (Leaf ''4'')))))] ICG
     = Inr \<lparr>code = [''int x'', ''t1 = 3 * 4'', ''t2 = 2 + t1'', ''x = t2''], temp_count = 2\<rparr> \<and>
   generate [Declare ''int'' ''x'',
             AssignExpr ''int'' ''x'' (BinOp ''+'' (Some (Leaf ''2''))
                (Some (BinOp ''*'' (Some (Leaf ''3'')) (Some (Leaf ''4'')))))]
     = Inr [''int x'', ''t1 = 3 * 4'', ''t2 = 2 + t1'', ''x = t2''] \<and>
   map target [''t1 = 3 * 4'', ''t2 = 2 + t1''] = [''t1'', ''t2''] \<and>
   temp_count ICG \<le> temp_count \<lparr>code = [''t1 = 3 * 4'', ''t2 = 2 + t1''], temp_count = 2\<rparr> \<and>
   (\<exists>ls. code \<lparr>code = [''t1 = 3 * 4'', ''t2 = 2 + t1''], temp_count = 2\<rparr> = code ICG @ ls \<and>
         map target ls = map (\<lambda>i. ''t'' @ str_nat i)
            [Suc (temp_count ICG) ..<
             Suc (temp_count \<lparr>code = [''t1 = 3 * 4'', ''t2 = 2 + t1''], temp_count = 2\<rparr>)]) \<and>
   temp_count ICG
     \<le> temp_count \<lparr>code = [''int x'', ''t1 = 3 * 4'', ''t2 = 2 + t1'', ''x = t2''], temp_count = 2\<rparr> \<and>
   (\<exists>blocks. code \<lparr>code = [''int x'', ''t1 = 3 * 4'', ''t2 = 2 + t1'', ''x = t2''], temp_count = 2\<rparr>
               = code ICG @ lines blocks \<and>
      list_all2 emits [Declare ''int'' ''x'',
                  AssignExpr ''int'' ''x'' (BinOp ''+'' (Some (Leaf ''2''))
                     (Some (BinOp ''*'' (Some (Leaf ''3'')) (Some (Leaf ''4'')))))] blocks \<and>
      map target (temp_lines blocks)
        = map (\<lambda>i. ''t'' @ str_nat i)
            [Suc (temp_count ICG) ..<
             Suc (temp_count \<lparr>code = [''int x'', ''t1 = 3 * 4'', ''t2 = 2 + t1'', ''x = t2''],
                              temp_count = 2\<rparr>)]) \<and>
   (\<exists>blocks k. [''int x'', ''t1 = 3 * 4'', ''t2 = 2 + t1'', ''x = t2''] = lines blocks \<and>
      list_all2 emits [Declare ''int'' ''x'',
                  AssignExpr ''int'' ''x'' (BinOp ''+'' (Some (Leaf ''2''))
                     (Some (BinOp ''*'' (Some (Leaf ''3'')) (Some (Leaf ''4'')))))] blocks \<and>
      map target (temp_lines blocks) = map (\<lambda>i. ''t'' @ str_nat i) [1 ..< Suc k] \<and>
      distinct (map target (temp_lines blocks)))"
proof -
  let ?e = "Some (BinOp ''+'' (Some (Leaf ''2''))
                  (Some (BinOp ''*'' (Some (Leaf ''3'')) (Some (Leaf ''4'')))))"
  let ?g = "\<lparr>code = [''t1 = 3 * 4'', ''t2 = 2 + t1''], temp_count = 2\<rparr>"
  let ?t = "[Declare ''int'' ''x'',
             AssignExpr ''int'' ''x'' (BinOp ''+'' (Some (Leaf ''2''))
                     (Some (BinOp ''*'' (Some (Leaf ''3'')) (Some (Leaf ''4'')))))]"
  let ?c = "[''int x'', ''t1 = 3 * 4'', ''t2 = 2 + t1'', ''x = t2'']"
  let ?g2 = "\<lparr>code = ?c, temp_count = 2\<rparr>"
  have h1: "handle_expr ?e ICG = Inr (''t2'', ?g)" by code_simp
  have h2: "generate_loop ?t ICG = Inr ?g2" by code_simp
  have h3: "map target [''t1 = 3 * 4'', ''t2 = 2 + t1''] = [''t1'', ''t2'']" by code_simp
  have h4: "generate ?t = Inr ?c" by code_simp
  show ?thesis
    using h1 h2 h3 h4
      temporaries_increasing[where e = ?e and g = ICG and r = "''t2''" and g' = ?g and tree = ?t
        and g'' = ?g2 and c = ?c]
    by blast
qed

section \<open>Properties of the whole pipeline\<close>

text \<open>
  C3 (a redeclaration).  On the text \<^verbatim>\<open>int x; int x;\<close> the route answers with the six tokens,
  no syntax error, the one semantic error \<^verbatim>\<open>Semantic Error: 'x' redeclared\<close> and the two
  lines \<^verbatim>\<open>int x\<close>.
\<close>

theorem redeclaration_pipeline:
  "analyze_route ''int x; int x;''
     = Result [Token KEYWORD ''int'', Token ID ''x'', Token DELIM '';'',
               Token KEYWORD ''int'', Token ID ''x'', Token DELIM '';'']
              []
              [''Semantic Error: '' @ [CHR 0x27, CHR ''x'', CHR 0x27] @ '' redeclared'']
              [''int x'', ''int x'']"
  by code_simp

text \<open>
  The stages on \<^verbatim>\<open>int x; int x;\<close> one by one: the list of semantic errors is not the list of
  the one string \<^verbatim>\<open>'x' redeclared\<close>.
\<close>

theorem redeclaration_literal_counterexample:
  "tokenize ''int x; int x;''
     = Inr [Token KEYWORD ''int'', Token ID ''x'', Token DELIM '';'',
            Token KEYWORD ''int'', Token ID ''x'', Token DELIM '';''] \<and>
   parse [Token KEYWORD ''int'', Token ID ''x'', Token DELIM '';'',
          Token KEYWORD ''int'', Token ID ''x'', Token DELIM '';'']
     = ([Declare ''int'' ''x'', Declare ''int'' ''x''], []) \<and>
   analyze [Declare ''int'' ''x'', Declare ''int'' ''x'']
     = [''Semantic Error: '' @ [CHR 0x27, CHR ''x'', CHR 0x27] @ '' redeclared''] \<and>
   analyze [Declare ''int'' ''x'', Declare ''int'' ''x'']
     \<noteq> [[CHR 0x27, CHR ''x'', CHR 0x27] @ '' redeclared'']"
  by code_simp

text \<open>
  C4 (precedence in the lowered code).  On the text \<^verbatim>\<open>int x = 2 + 3 * 4;\<close> the route answers
  with no error and the lines \<^verbatim>\<open>int x\<close>, \<^verbatim>\<open>t1 = 3 * 4\<close>, \<^verbatim>\<open>t2 = 2 + t1\<close>, \<^verbatim>\<open>x = t2\<close>: the
  product is computed first.  The generator ends with its counter at 2, so two temporaries
  were allocated.
\<close>

theorem precedence_pipeline:
  "analyze_route ''int x = 2 + 3 * 4;''
     = Result [Token KEYWORD ''int'', Token ID ''x'', Token OP ''='', Token NUM ''2'', Token OP ''+'',
               Token NUM ''3'', Token OP ''*'', Token NUM ''4'', Token DELIM '';'']
              [] []
              [''int x'', ''t1 = 3 * 4'', ''t2 = 2 + t1'', ''x = t2''] \<and>
   tokenize ''int x = 2 + 3 * 4;''
     = Inr [Token KEYWORD ''int'', Token ID ''x'', Token OP ''='', Token NUM ''2'', Token OP ''+'',
            Token NUM ''3'', Token OP ''*'', Token NUM ''4'', Token DELIM '';''] \<and>
   parse [Token KEYWORD ''int'', Token ID ''x'', Token OP ''='', Token NUM ''2'', Token OP ''+'',
          Token NUM ''3'', Token OP ''*'', Token NUM ''4'', Token DELIM '';'']
     = ([Declare ''int'' ''x'',
         AssignExpr ''int'' ''x'' (BinOp ''+'' (Some (Leaf ''2''))
            (Some (BinOp ''*'' (Some (Leaf ''3'')) (Some (Leaf ''4'')))))], []) \<and>
   generate_loop [Declare ''int'' ''x'',
         AssignExpr ''int'' ''x'' (BinOp ''+'' (Some (Leaf ''2''))
            (Some (BinOp ''*'' (Some (Leaf ''3'')) (Some (Leaf ''4'')))))] ICG
     = Inr \<lparr>code = [''int x'', ''t1 = 3 * 4'', ''t2 = 2 + t1'', ''x = t2''], temp_count = 2\<rparr>"
  by code_simp

subsection \<open>An unexpected character\<close>

text \<open>
  The search of \<^verbatim>\<open>tokenize\<close>, started at a position, comes to stand at the text \<open>t\<close> without
  having met a \<^verbatim>\<open>MISMATCH\<close> on the way.
\<close>

function scan_reaches :: "char option \<Rightarrow> string \<Rightarrow> string \<Rightarrow> bool" where
  "scan_reaches p s t =
     (s = t \<or>
      (case first_match token_spec (p, s) of
         None \<Rightarrow> (case s of [] \<Rightarrow> False | x # xs \<Rightarrow> scan_reaches (Some x) xs t)
       | Some (name, (p', rest)) \<Rightarrow> name \<noteq> MISMATCH \<and> scan_reaches p' rest t))"
  by pat_completeness auto
termination
  by (relation "measure (\<lambda>(p, s, t). length s)") (auto dest: first_match_consumes)

declare scan_reaches.simps [simp del]

lemma first_match_at: "first_match token_spec (p, CHR ''@'' # rest) = Some (MISMATCH, (Some (CHR ''@''), rest))"
  by (simp add: token_spec_def lit_def boundary_def is_word_def is_space_def is_digit_def)

lemma tokenize_loop_at:
  "tokenize_loop p (CHR ''@'' # rest) toks = Inl (RuntimeError ''Unexpected character: @'')"
  by (subst tokenize_loop.simps) (simp add: first_match_at)

lemma scan_reaches_raises:
  "scan_reaches p s (CHR ''@'' # rest) \<Longrightarrow>
     tokenize_loop p s toks = Inl (RuntimeError ''Unexpected character: @'')"
proof (induction p s toks rule: tokenize_loop.induct)
  case (1 p s toks)
  show ?case
  proof (cases "s = CHR ''@'' # rest")
    case True
    then show ?thesis by (simp add: tokenize_loop_at)
  next
    case False
    note sr = "1.prems"[unfolded scan_reaches.simps[of p s]]
    show ?thesis
    proof (cases "first_match token_spec (p, s)")
      case None
      with sr False obtain x xs where s: "s = x # xs" and r: "scan_reaches (Some x) xs (CHR ''@'' # rest)"
        by (cases s) auto
      show ?thesis using "1.IH"(1)[OF None s r] None s by (subst tokenize_loop.simps) simp
    next
      case (Some a)
      then obtain name p' rest' where a: "a = (name, (p', rest'))" by (cases a) auto
      from sr False Some a have nm: "name \<noteq> MISMATCH" and r: "scan_reaches p' rest' (CHR ''@'' # rest)"
        by auto
      have fm: "first_match token_spec (p, s) = Some (name, (p', rest'))" using Some a by simp
      show ?thesis
      proof (cases name)
        case (Kind k)
        show ?thesis
          using "1.IH"(2)[OF fm refl refl refl Kind r] fm Kind
          by (subst tokenize_loop.simps) simp
      next
        case SKIP
        show ?thesis
          using "1.IH"(3)[OF fm refl refl refl SKIP r] fm SKIP
          by (subst tokenize_loop.simps) simp
      next
        case MISMATCH
        then show ?thesis using nm by simp
      qed
    qed
  qed
qed

text \<open>
  C8 (the character \<^verbatim>\<open>@\<close>).  When the search of \<^verbatim>\<open>tokenize\<close> arrives at a \<^verbatim>\<open>@\<close>, with no
  unexpected character before it, \<^verbatim>\<open>tokenize\<close> raises the error \<^verbatim>\<open>Unexpected character: @\<close>,
  and the route answers with that message alone: no tokens, no syntax or semantic errors
  and no intermediate code.
\<close>

theorem at_sign_aborts:
  assumes "scan_reaches None source (CHR ''@'' # rest)"
  shows "tokenize source = Inl (RuntimeError ''Unexpected character: @'') \<and>
         analyze_route source = Error ''Unexpected character: @''"
proof -
  have "tokenize source = Inl (RuntimeError ''Unexpected character: @'')"
    unfolding tokenize_def using assms by (rule scan_reaches_raises)
  then show ?thesis by (simp add: analyze_route_def)
qed

text \<open>The text \<^verbatim>\<open>int x = @;\<close>.\<close>

theorem at_sign_aborts_witness:
  "scan_reaches None ''int x = @;'' ''@;'' \<and>
   tokenize ''int x = @;'' = Inl (RuntimeError ''Unexpected character: @'') \<and>
   analyze_route ''int x = @;'' = Error ''Unexpected character: @''"
proof -
  have h: "scan_reaches None ''int x = @;'' (CHR ''@'' # '';'')" by code_simp
  show ?thesis using h at_sign_aborts[OF h] by simp
qed

text \<open>
  In the text \<^verbatim>\<open>$@\<close> no group but \<^verbatim>\<open>MISMATCH\<close> matches at the \<^verbatim>\<open>@\<close>, and the error names the
  \<^verbatim>\<open>$\<close> before it.
\<close>

theorem at_sign_not_named_counterexample:
  "first_match token_spec (Some (CHR ''$''), ''@'') = Some (MISMATCH, (Some (CHR ''@''), [])) \<and>
   tokenize ''$@'' = Inl (RuntimeError ''Unexpected character: $'') \<and>
   analyze_route ''$@'' = Error ''Unexpected character: $''"
  by code_simp

end
